theory Spec2Isabelle
  imports Main
begin

section \<open>The notification service: bus events, subscriber registry and fan-out\<close>

text \<open>
  The development embeds the notification service (the second Go program of
  \<^verbatim>\<open>src/billing-ms/main.go\<close>, lines 123-325): the two NATS callbacks of
  \<^verbatim>\<open>subscribeToEvents\<close>, the gRPC streaming method \<^verbatim>\<open>SubscribeToNotifications\<close> and
  \<^verbatim>\<open>broadcast\<close>. The service is concurrent. Its goroutines are interleaved at the points
  where they touch shared memory: a critical section of the mutex \<^verbatim>\<open>mu\<close> and a channel
  operation are each one atomic step, and a run of the service is a list of such steps.
\<close>

subsection \<open>JSON documents and \<^verbatim>\<open>json.Unmarshal\<close>\<close>

text \<open>
  \<^verbatim>\<open>encoding/json\<close> is not part of the repository. A payload is given as the JSON
  document its bytes hold (\<open>None\<close> when the bytes are not a JSON document), and
  \<^verbatim>\<open>json.Unmarshal\<close> into a struct of string fields is modelled as the library
  documents it: the top-level value must be an object (\<^verbatim>\<open>null\<close> is accepted and leaves
  the struct as it is); a member is stored in the field whose name equals its key up to
  case folding; a member for a string field must be a string (\<^verbatim>\<open>null\<close> leaves the
  field as it is), otherwise decoding goes on and \<^verbatim>\<open>UnmarshalTypeError\<close> is returned at
  the end; members with other keys are skipped; a later member overwrites an earlier one.
\<close>

datatype json =
    JNull
  | JBool bool
  | JNumber string
  | JString string
  | JArray "json list"
  | JObject "(string \<times> json) list"

datatype json_error = SyntaxError | UnmarshalTypeError

text \<open>
  Case folding of a key (\<^verbatim>\<open>foldName\<close>): ASCII letters go to upper case; of the runes
  beyond ASCII only U+017F (bytes C5 BF) and U+212A (bytes E2 84 AA) fold to an ASCII letter,
  \<open>S\<close> and \<open>K\<close>. Every other byte is kept, so it never matches an ASCII field name.
\<close>

definition upper_ascii :: "char \<Rightarrow> char" where
  "upper_ascii c =
     (let n = (of_char c :: nat) in if 97 \<le> n \<and> n \<le> 122 then char_of (n - 32) else c)"

fun foldName :: "string \<Rightarrow> string" where
  "foldName [] = []"
| "foldName (c # cs) =
     (if (of_char c :: nat) = 197 \<and> (case cs of d # _ \<Rightarrow> (of_char d :: nat) = 191 | [] \<Rightarrow> False)
        then CHR ''S'' # foldName (tl cs)
      else if (of_char c :: nat) = 226 \<and>
              (case cs of d # e # _ \<Rightarrow> (of_char d :: nat) = 132 \<and> (of_char e :: nat) = 170 | _ \<Rightarrow> False)
        then CHR ''K'' # foldName (tl (tl cs))
      else upper_ascii c # foldName cs)"

text \<open>The value stored in a string field, and whether the member had an acceptable type.\<close>

fun string_value :: "json \<Rightarrow> string \<Rightarrow> string \<times> bool" where
  "string_value (JString v) old = (v, True)"
| "string_value JNull old = (old, True)"
| "string_value _ old = (old, False)"

text \<open>
  \<^verbatim>\<open>type UserCreatedEvent struct { UID string `json:"uid"`; Username string `json:"username"` }\<close>
\<close>

record UserCreatedEvent =
  UID :: string
  Username :: string

text \<open>
  \<^verbatim>\<open>type billUpdate struct { Id string `json:"Id"`; Message string `json:"Message"` }\<close>
  (the field names carry a suffix: \<open>Id\<close> and \<open>Message\<close> are fields of the notification).
\<close>

record billUpdate =
  Id_bill :: string
  Message_bill :: string

fun fill_UserCreatedEvent ::
  "(string \<times> json) list \<Rightarrow> UserCreatedEvent \<Rightarrow> bool \<Rightarrow> UserCreatedEvent \<times> bool" where
  "fill_UserCreatedEvent [] ev ok = (ev, ok)"
| "fill_UserCreatedEvent ((k, v) # kvs) ev ok =
     (if foldName k = foldName ''uid''
        then fill_UserCreatedEvent kvs (ev\<lparr>UID := fst (string_value v (UID ev))\<rparr>)
               (ok \<and> snd (string_value v (UID ev)))
      else if foldName k = foldName ''username''
        then fill_UserCreatedEvent kvs (ev\<lparr>Username := fst (string_value v (Username ev))\<rparr>)
               (ok \<and> snd (string_value v (Username ev)))
      else fill_UserCreatedEvent kvs ev ok)"

fun fill_billUpdate ::
  "(string \<times> json) list \<Rightarrow> billUpdate \<Rightarrow> bool \<Rightarrow> billUpdate \<times> bool" where
  "fill_billUpdate [] ev ok = (ev, ok)"
| "fill_billUpdate ((k, v) # kvs) ev ok =
     (if foldName k = foldName ''Id''
        then fill_billUpdate kvs (ev\<lparr>Id_bill := fst (string_value v (Id_bill ev))\<rparr>)
               (ok \<and> snd (string_value v (Id_bill ev)))
      else if foldName k = foldName ''Message''
        then fill_billUpdate kvs (ev\<lparr>Message_bill := fst (string_value v (Message_bill ev))\<rparr>)
               (ok \<and> snd (string_value v (Message_bill ev)))
      else fill_billUpdate kvs ev ok)"

text \<open>\<^verbatim>\<open>var event UserCreatedEvent; json.Unmarshal(m.Data, &event)\<close>: the struct starts zeroed.\<close>

definition Unmarshal_UserCreatedEvent :: "json option \<Rightarrow> json_error + UserCreatedEvent" where
  "Unmarshal_UserCreatedEvent data =
     (case data of
        None \<Rightarrow> Inl SyntaxError
      | Some JNull \<Rightarrow> Inr \<lparr>UID = [], Username = []\<rparr>
      | Some (JObject kvs) \<Rightarrow>
          (case fill_UserCreatedEvent kvs \<lparr>UID = [], Username = []\<rparr> True of
             (ev, ok) \<Rightarrow> if ok then Inr ev else Inl UnmarshalTypeError)
      | Some _ \<Rightarrow> Inl UnmarshalTypeError)"

definition Unmarshal_billUpdate :: "json option \<Rightarrow> json_error + billUpdate" where
  "Unmarshal_billUpdate data =
     (case data of
        None \<Rightarrow> Inl SyntaxError
      | Some JNull \<Rightarrow> Inr \<lparr>Id_bill = [], Message_bill = []\<rparr>
      | Some (JObject kvs) \<Rightarrow>
          (case fill_billUpdate kvs \<lparr>Id_bill = [], Message_bill = []\<rparr> True of
             (ev, ok) \<Rightarrow> if ok then Inr ev else Inl UnmarshalTypeError)
      | Some _ \<Rightarrow> Inl UnmarshalTypeError)"

subsection \<open>Notifications, subscribers and the server\<close>

text \<open>\<^verbatim>\<open>notifpb.Notification\<close>: the record sent to a client stream.\<close>

record Notification =
  Id :: string
  UserId :: string
  Message :: string
  Timestamp :: string

text \<open>
  The two callbacks that \<^verbatim>\<open>subscribeToEvents\<close> installs. NATS gives every subscription a
  goroutine of its own, which runs the callback for one message at a time; so at most one
  call of \<^verbatim>\<open>broadcast\<close> is in progress for each of them.
\<close>

datatype handler = UserCreated | BillUpdate

text \<open>
  A Go channel of notifications: the buffer, its capacity, whether the channel has been
  closed, and the senders blocked on the full buffer, oldest first (each with the user id it
  logs and the notification it is sending).
\<close>

record chan =
  buf :: "Notification list"
  cap :: nat
  closed :: bool
  sendq :: "(handler \<times> string \<times> Notification) list"

text \<open>\<^verbatim>\<open>type subscriber struct { ch chan *notifpb.Notification; userId string }\<close>\<close>

record subscriber =
  ch :: chan
  userId :: string

text \<open>
  The local variables of a call of \<^verbatim>\<open>broadcast\<close> that has found a subscriber: its
  arguments, the pointer \<^verbatim>\<open>sub\<close>, and, once it waits in the \<^verbatim>\<open>select\<close>, the time at which
  the timer of \<^verbatim>\<open>time.After(1 * time.Second)\<close> fires.
\<close>

record bcast =
  b_userID :: string
  b_notif :: Notification
  b_sub :: nat
  b_timer :: "nat option"

text \<open>The lines the service writes with \<^verbatim>\<open>log.Printf\<close> and \<^verbatim>\<open>log.Println\<close>.\<close>

datatype log_event =
    ReceivedUserCreated "json option"
  | ErrorUnmarshallingUserCreated
  | ReceivedBillUpdate "json option"
  | ErrorUnmarshallingBillUpdate
  | NewSubscriber string
  | SubscriberDisconnected string
  | ErrorSendingToStream string
  | ClientDisconnected string
  | NoActiveSubscribers string
  | SuccessfullyBroadcasted string
  | ChannelFullDropping string

text \<open>
  \<^verbatim>\<open>notificationServer\<close>. \<open>subscribers\<close> is the map of the struct; its values are
  pointers, here addresses into \<open>heap\<close>, the subscriber objects allocated so far
  (\<open>nextp\<close> is the next free address). \<open>running\<close> holds the calls of \<^verbatim>\<open>broadcast\<close> in
  progress, \<open>sending\<close> the notification that a session has received from its channel and
  is passing to \<^verbatim>\<open>stream.Send\<close> (the variable \<^verbatim>\<open>notif\<close> of line 292; a session and its
  stream are named by the address of the subscriber), \<open>sent\<close> what \<^verbatim>\<open>stream.Send\<close> has
  written to each client stream, \<open>now\<close> the clock in nanoseconds, \<open>logs\<close> the log, and
  \<open>panicked\<close> whether a goroutine has panicked, which ends the process.
\<close>

record notificationServer =
  subscribers :: "string \<rightharpoonup> nat"
  heap :: "nat \<rightharpoonup> subscriber"
  nextp :: nat
  running :: "handler \<rightharpoonup> bcast"
  sending :: "nat \<rightharpoonup> Notification"
  sent :: "(nat \<times> Notification) list"
  now :: nat
  logs :: "log_event list"
  panicked :: bool

text \<open>The server as \<^verbatim>\<open>main\<close> creates it: \<^verbatim>\<open>subscribers: make(map[string]*subscriber)\<close>.\<close>

definition init :: notificationServer where
  "init = \<lparr>subscribers = Map.empty, heap = Map.empty, nextp = 0, running = Map.empty,
           sending = Map.empty, sent = [], now = 0, logs = [], panicked = False\<rparr>"

definition Second :: nat where
  "Second = 1000000000"

subsection \<open>\<^verbatim>\<open>broadcast\<close>\<close>

text \<open>
  Lines 308-315, in a call made by the callback \<open>g\<close>: the lookup under the read lock.
  Without an entry the call logs and returns. With an entry the call goes on, outside the
  lock, with the pointer it has read.
\<close>

definition broadcast :: "handler \<Rightarrow> string \<Rightarrow> Notification \<Rightarrow> notificationServer \<Rightarrow> notificationServer" where
  "broadcast g userID notif s =
     (case subscribers s userID of
        None \<Rightarrow> s\<lparr>logs := logs s @ [NoActiveSubscribers userID]\<rparr>
      | Some p \<Rightarrow>
          s\<lparr>running := (running s)(g \<mapsto> \<lparr>b_userID = userID, b_notif = notif, b_sub = p, b_timer = None\<rparr>)\<rparr>)"

text \<open>
  Lines 318-320: the call enters the \<^verbatim>\<open>select\<close>. The timer starts now and is not ready. A
  send on a closed channel panics. With room in the buffer the send happens at once. On a full
  buffer the call blocks, queued behind the senders already waiting.
\<close>

definition broadcast_select :: "handler \<Rightarrow> notificationServer \<Rightarrow> notificationServer" where
  "broadcast_select g s =
     (case running s g of
        None \<Rightarrow> s
      | Some b \<Rightarrow>
          (case b_timer b of
             Some t \<Rightarrow> s
           | None \<Rightarrow>
               (case heap s (b_sub b) of
                  None \<Rightarrow> s
                | Some sub \<Rightarrow>
                    if closed (ch sub) then s\<lparr>panicked := True\<rparr>
                    else if length (buf (ch sub)) < cap (ch sub) then
                      s\<lparr>heap := (heap s)(b_sub b \<mapsto> sub\<lparr>ch := (ch sub)\<lparr>buf := buf (ch sub) @ [b_notif b]\<rparr>\<rparr>),
                        running := (running s)(g := None),
                        logs := logs s @ [SuccessfullyBroadcasted (b_userID b)]\<rparr>
                    else
                      s\<lparr>heap := (heap s)(b_sub b \<mapsto>
                                 sub\<lparr>ch := (ch sub)\<lparr>sendq := sendq (ch sub) @ [(g, b_userID b, b_notif b)]\<rparr>\<rparr>),
                        running := (running s)(g \<mapsto> b\<lparr>b_timer := Some (now s + 1 * Second)\<rparr>)\<rparr>)))"

text \<open>
  Lines 321-324: the timer fires while the call is still blocked. The call leaves the queue
  of senders, logs that it drops the notification, and returns.
\<close>

definition broadcast_timeout :: "handler \<Rightarrow> notificationServer \<Rightarrow> notificationServer" where
  "broadcast_timeout g s =
     (case running s g of
        None \<Rightarrow> s
      | Some b \<Rightarrow>
          (case b_timer b of
             None \<Rightarrow> s
           | Some t \<Rightarrow>
               (case heap s (b_sub b) of
                  None \<Rightarrow> s
                | Some sub \<Rightarrow>
                    if now s < t \<or> g \<notin> fst ` set (sendq (ch sub)) then s
                    else
                      s\<lparr>heap := (heap s)(b_sub b \<mapsto>
                                 sub\<lparr>ch := (ch sub)\<lparr>sendq := filter (\<lambda>w. fst w \<noteq> g) (sendq (ch sub))\<rparr>\<rparr>),
                        running := (running s)(g := None),
                        logs := logs s @ [ChannelFullDropping (b_userID b)]\<rparr>)))"

subsection \<open>\<^verbatim>\<open>subscribeToEvents\<close>\<close>

text \<open>
  A message of the bus: \<^verbatim>\<open>nats.Msg\<close> with its subject and its data. The identifier from
  \<^verbatim>\<open>uuid.New().String()\<close> and the time from \<^verbatim>\<open>timestamppb.Now().AsTime().String()\<close> come
  from outside; they are given with the message.
\<close>

record Msg =
  Subject :: string
  Data :: "json option"

text \<open>Lines 219-234: the callback on \<^verbatim>\<open>user.created\<close>.\<close>

definition user_created_notif :: "UserCreatedEvent \<Rightarrow> string \<Rightarrow> string \<Rightarrow> Notification" where
  "user_created_notif event uuid ts =
     \<lparr>Id = uuid, UserId = UID event,
      Message = ''Welcome to the platform, '' @ Username event @ ''!'',
      Timestamp = ts\<rparr>"

definition on_user_created :: "json option \<Rightarrow> string \<Rightarrow> string \<Rightarrow> notificationServer \<Rightarrow> notificationServer" where
  "on_user_created data uuid ts s =
     (let s1 = s\<lparr>logs := logs s @ [ReceivedUserCreated data]\<rparr> in
      case Unmarshal_UserCreatedEvent data of
        Inl err \<Rightarrow> s1\<lparr>logs := logs s1 @ [ErrorUnmarshallingUserCreated]\<rparr>
      | Inr event \<Rightarrow> broadcast UserCreated (UID event) (user_created_notif event uuid ts) s1)"

text \<open>Lines 240-255: the callback on \<^verbatim>\<open>bill.update\<close>.\<close>

definition bill_update_notif :: "billUpdate \<Rightarrow> string \<Rightarrow> string \<Rightarrow> Notification" where
  "bill_update_notif event uuid ts =
     \<lparr>Id = uuid, UserId = Id_bill event, Message = Message_bill event, Timestamp = ts\<rparr>"

definition on_bill_update :: "json option \<Rightarrow> string \<Rightarrow> string \<Rightarrow> notificationServer \<Rightarrow> notificationServer" where
  "on_bill_update data uuid ts s =
     (let s1 = s\<lparr>logs := logs s @ [ReceivedBillUpdate data]\<rparr> in
      case Unmarshal_billUpdate data of
        Inl err \<Rightarrow> s1\<lparr>logs := logs s1 @ [ErrorUnmarshallingBillUpdate]\<rparr>
      | Inr event \<Rightarrow> broadcast BillUpdate (Id_bill event) (bill_update_notif event uuid ts) s1)"

text \<open>
  The subscriptions of \<^verbatim>\<open>subscribeToEvents\<close>: a subject without wildcards receives the
  messages published on exactly that subject. A message on any other subject reaches no
  callback of the service.
\<close>

definition subscription :: "string \<Rightarrow> handler option" where
  "subscription subj =
     (if subj = ''user.created'' then Some UserCreated
      else if subj = ''bill.update'' then Some BillUpdate
      else None)"

text \<open>
  The notification that the callback for a message constructs, if it constructs one: this is
  what the callback hands to \<^verbatim>\<open>broadcast\<close>.
\<close>

definition decode :: "Msg \<Rightarrow> string \<Rightarrow> string \<Rightarrow> Notification option" where
  "decode m uuid ts =
     (case subscription (Subject m) of
        None \<Rightarrow> None
      | Some UserCreated \<Rightarrow>
          (case Unmarshal_UserCreatedEvent (Data m) of
             Inl err \<Rightarrow> None
           | Inr event \<Rightarrow> Some (user_created_notif event uuid ts))
      | Some BillUpdate \<Rightarrow>
          (case Unmarshal_billUpdate (Data m) of
             Inl err \<Rightarrow> None
           | Inr event \<Rightarrow> Some (bill_update_notif event uuid ts)))"

text \<open>
  A message arrives. The callback runs up to the lookup of \<^verbatim>\<open>broadcast\<close>; while the
  previous call of the same callback has not returned, the message waits.
\<close>

definition subscribeToEvents :: "Msg \<Rightarrow> string \<Rightarrow> string \<Rightarrow> notificationServer \<Rightarrow> notificationServer" where
  "subscribeToEvents m uuid ts s =
     (case subscription (Subject m) of
        None \<Rightarrow> s
      | Some g \<Rightarrow>
          if running s g \<noteq> None then s
          else (case g of
                  UserCreated \<Rightarrow> on_user_created (Data m) uuid ts s
                | BillUpdate \<Rightarrow> on_bill_update (Data m) uuid ts s))"

subsection \<open>\<^verbatim>\<open>SubscribeToNotifications\<close>\<close>

text \<open>
  Lines 266-278: a new subscriber with a channel of capacity 10 is allocated and stored in
  the map under \<^verbatim>\<open>req.UserId\<close>, replacing what was there. The method checks nothing.
\<close>

definition SubscribeToNotifications :: "string \<Rightarrow> notificationServer \<Rightarrow> notificationServer" where
  "SubscribeToNotifications userID s =
     s\<lparr>logs := logs s @ [NewSubscriber userID],
       heap := (heap s)(nextp s \<mapsto> \<lparr>ch = \<lparr>buf = [], cap = 10, closed = False, sendq = []\<rparr>, userId = userID\<rparr>),
       nextp := Suc (nextp s),
       subscribers := (subscribers s)(userID \<mapsto> nextp s)\<rparr>"

text \<open>
  Lines 281-287, the deferred function of the session whose subscriber is at \<open>p\<close>
  (\<^verbatim>\<open>userID\<close> is the \<^verbatim>\<open>userId\<close> of that subscriber, line 272): the key is deleted from the
  map, whatever it maps to, and the channel is closed. Closing a channel makes the senders
  blocked on it panic. The deletion and the close are one step here: a send that fell between
  them would go into the buffer of a channel that nobody reads any more.
\<close>

definition detach :: "nat \<Rightarrow> notificationServer \<Rightarrow> notificationServer" where
  "detach p s =
     (case heap s p of
        None \<Rightarrow> s
      | Some sub \<Rightarrow>
          s\<lparr>subscribers := (subscribers s)(userId sub := None),
            heap := (heap s)(p \<mapsto> sub\<lparr>ch := (ch sub)\<lparr>closed := True\<rparr>\<rparr>),
            panicked := (panicked s \<or> sendq (ch sub) \<noteq> []),
            logs := logs s @ [SubscriberDisconnected (userId sub)]\<rparr>)"

text \<open>
  A receive on the channel of the subscriber at \<open>p\<close>, whose buffer is not empty: the
  oldest notification leaves the buffer. If a sender is blocked on the channel, the receive
  hands the freed slot to the oldest one, whose send completes in the same step (its call of
  \<^verbatim>\<open>broadcast\<close> logs the success and returns).
\<close>

definition chanrecv :: "nat \<Rightarrow> notificationServer \<Rightarrow> notificationServer" where
  "chanrecv p s =
     (case heap s p of
        None \<Rightarrow> s
      | Some sub \<Rightarrow>
          (case sendq (ch sub) of
             [] \<Rightarrow> s\<lparr>heap := (heap s)(p \<mapsto> sub\<lparr>ch := (ch sub)\<lparr>buf := tl (buf (ch sub))\<rparr>\<rparr>)\<rparr>
           | w # ws \<Rightarrow>
               s\<lparr>heap := (heap s)(p \<mapsto> sub\<lparr>ch := (ch sub)\<lparr>buf := tl (buf (ch sub)) @ [snd (snd w)],
                                                           sendq := ws\<rparr>\<rparr>),
                 running := (running s)(fst w := None),
                 logs := logs s @ [SuccessfullyBroadcasted (fst (snd w))]\<rparr>))"

text \<open>
  Line 292: the session at \<open>p\<close> waits in its \<^verbatim>\<open>select\<close> and takes the oldest notification
  from its channel; it goes on to \<^verbatim>\<open>stream.Send\<close> with it. A session is in its loop as
  long as its channel is open, and in its \<^verbatim>\<open>select\<close> when it is not sending.
\<close>

definition session_recv :: "nat \<Rightarrow> notificationServer \<Rightarrow> notificationServer" where
  "session_recv p s =
     (case heap s p of
        None \<Rightarrow> s
      | Some sub \<Rightarrow>
          (case buf (ch sub) of
             [] \<Rightarrow> s
           | notif # rest \<Rightarrow>
               if closed (ch sub) \<or> sending s p \<noteq> None then s
               else (chanrecv p s)\<lparr>sending := (sending s)(p \<mapsto> notif)\<rparr>))"

text \<open>
  Lines 294-297: \<^verbatim>\<open>stream.Send\<close> of the session at \<open>p\<close> returns. If it has succeeded
  (\<open>ok\<close>) the notification is on the stream and the session is back in its \<^verbatim>\<open>select\<close>; if
  it has failed the session logs the error, the method returns and the deferred function
  runs. Between the receive and this step the other goroutines go on.
\<close>

definition session_send :: "nat \<Rightarrow> bool \<Rightarrow> notificationServer \<Rightarrow> notificationServer" where
  "session_send p ok s =
     (case sending s p of
        None \<Rightarrow> s
      | Some notif \<Rightarrow>
          if ok then s\<lparr>sending := (sending s)(p := None), sent := sent s @ [(p, notif)]\<rparr>
          else (case heap s p of
                  None \<Rightarrow> s
                | Some sub \<Rightarrow>
                    detach p (s\<lparr>sending := (sending s)(p := None),
                                logs := logs s @ [ErrorSendingToStream (userId sub)]\<rparr>)))"

text \<open>
  Lines 298-301: the session at \<open>p\<close> waits in its \<^verbatim>\<open>select\<close> and the context of the stream
  is done; the method returns and the deferred function runs.
\<close>

definition session_done :: "nat \<Rightarrow> notificationServer \<Rightarrow> notificationServer" where
  "session_done p s =
     (case heap s p of
        None \<Rightarrow> s
      | Some sub \<Rightarrow>
          if closed (ch sub) \<or> sending s p \<noteq> None then s
          else detach p (s\<lparr>logs := logs s @ [ClientDisconnected (userId sub)]\<rparr>))"

subsection \<open>Runs of the service\<close>

text \<open>
  The steps of a run: a message arrives on the bus (with the identifier and the time that
  the callback will draw); the call of \<^verbatim>\<open>broadcast\<close> made by a callback enters its
  \<^verbatim>\<open>select\<close>; the timer of that call fires; a client opens a stream for a user id; the
  session of a subscriber receives from its channel; its \<^verbatim>\<open>stream.Send\<close> returns, with
  success or not; the context of its stream is done; time passes.
\<close>

datatype event =
    NatsMsg Msg string string
  | SelectEnter handler
  | TimerFires handler
  | OpenStream string
  | ChanRecv nat
  | StreamSend nat bool
  | CtxDone nat
  | Tick nat

text \<open>One atomic step. After a panic the process is gone and nothing happens any more.\<close>

definition step :: "event \<Rightarrow> notificationServer \<Rightarrow> notificationServer" where
  "step e s =
     (if panicked s then s
      else case e of
        NatsMsg m uuid ts \<Rightarrow> subscribeToEvents m uuid ts s
      | SelectEnter g \<Rightarrow> broadcast_select g s
      | TimerFires g \<Rightarrow> broadcast_timeout g s
      | OpenStream userID \<Rightarrow> SubscribeToNotifications userID s
      | ChanRecv p \<Rightarrow> session_recv p s
      | StreamSend p ok \<Rightarrow> session_send p ok s
      | CtxDone p \<Rightarrow> session_done p s
      | Tick d \<Rightarrow> s\<lparr>now := now s + d\<rparr>)"

fun run :: "event list \<Rightarrow> notificationServer \<Rightarrow> notificationServer" where
  "run [] s = s"
| "run (e # es) s = run es (step e s)"

subsection \<open>The gateway in front of the service\<close>

text \<open>
  \<^verbatim>\<open>handleWebSocket\<close> of \<^verbatim>\<open>src/api-gateway/main.go\<close> (lines 116-143) is the caller of
  \<^verbatim>\<open>SubscribeToNotifications\<close>: it answers 400 when the query has no \<^verbatim>\<open>userId\<close>, gives up
  when the upgrade to a WebSocket fails or the gRPC call fails, and otherwise has opened the
  stream for that \<^verbatim>\<open>userId\<close>. Whether the upgrade and the call succeed comes from outside.
\<close>

datatype ws_result =
    WsBadRequest string
  | WsUpgradeFailed
  | WsSubscribeFailed
  | WsStream string

definition handleWebSocket :: "string \<Rightarrow> bool \<Rightarrow> bool \<Rightarrow> ws_result" where
  "handleWebSocket userID upgrade_ok subscribe_ok =
     (if userID = [] then WsBadRequest ''userId query parameter is required''
      else if \<not> upgrade_ok then WsUpgradeFailed
      else if \<not> subscribe_ok then WsSubscribeFailed
      else WsStream userID)"

text \<open>What a connection to the gateway makes of the notification service.\<close>

definition ws_connect :: "string \<Rightarrow> bool \<Rightarrow> bool \<Rightarrow> notificationServer \<Rightarrow> notificationServer" where
  "ws_connect userID upgrade_ok subscribe_ok s =
     (case handleWebSocket userID upgrade_ok subscribe_ok of
        WsStream u \<Rightarrow> step (OpenStream u) s
      | _ \<Rightarrow> s)"

subsection \<open>Invariants of the runs\<close>

text \<open>
  An entry of the map points to an allocated subscriber that carries the key as its user id
  and whose channel is open.
\<close>

definition reg_ok :: "notificationServer \<Rightarrow> bool" where
  "reg_ok s \<longleftrightarrow>
     (\<forall>u p. subscribers s u = Some p \<longrightarrow>
        (\<exists>sub. heap s p = Some sub \<and> userId sub = u \<and> \<not> closed (ch sub)))"

text \<open>Nothing is allocated at or beyond the next free address.\<close>

definition heap_ok :: "notificationServer \<Rightarrow> bool" where
  "heap_ok s \<longleftrightarrow> (\<forall>p. nextp s \<le> p \<longrightarrow> heap s p = None)"

text \<open>
  A goroutine waits at most once in the queue of a channel, and a sender in the queue of a
  channel is a call of \<^verbatim>\<open>broadcast\<close> in progress that waits on that channel.
\<close>

definition sendq_ok :: "notificationServer \<Rightarrow> bool" where
  "sendq_ok s \<longleftrightarrow>
     (\<forall>p sub. heap s p = Some sub \<longrightarrow>
        distinct (map fst (sendq (ch sub))) \<and>
        (\<forall>w \<in> set (sendq (ch sub)).
           \<exists>b. running s (fst w) = Some b \<and> b_sub b = p \<and> b_timer b \<noteq> None))"

definition wf :: "notificationServer \<Rightarrow> bool" where
  "wf s \<longleftrightarrow> reg_ok s \<and> heap_ok s \<and> sendq_ok s"

text \<open>What \<open>reg_ok\<close> and \<open>heap_ok\<close> read of a subscriber: its user id and whether it is closed.\<close>

definition shape :: "notificationServer \<Rightarrow> nat \<Rightarrow> (string \<times> bool) option" where
  "shape s p = map_option (\<lambda>sub. (userId sub, closed (ch sub))) (heap s p)"

text \<open>
  Routing: a call of \<^verbatim>\<open>broadcast\<close> in progress sends a notification for the user id it was
  called with, to a subscriber of that user id; what a channel holds or has queued, and what
  a session is sending or has sent on its stream, is for the user id of its subscriber.
\<close>

definition routed :: "notificationServer \<Rightarrow> bool" where
  "routed s \<longleftrightarrow>
     (\<forall>g b. running s g = Some b \<longrightarrow>
        UserId (b_notif b) = b_userID b \<and>
        (\<exists>sub. heap s (b_sub b) = Some sub \<and> userId sub = b_userID b))
     \<and> (\<forall>p sub. heap s p = Some sub \<longrightarrow>
          (\<forall>n \<in> set (buf (ch sub)). UserId n = userId sub) \<and>
          (\<forall>w \<in> set (sendq (ch sub)). UserId (snd (snd w)) = userId sub))
     \<and> (\<forall>p n. sending s p = Some n \<longrightarrow> (\<exists>sub. heap s p = Some sub \<and> UserId n = userId sub))
     \<and> (\<forall>x \<in> set (sent s). \<exists>sub. heap s (fst x) = Some sub \<and> UserId (snd x) = userId sub)"

text \<open>
  The session at \<open>p\<close> has run its deferred function: its channel is closed, no sender waits
  on it unless the process has panicked, the map does not point to it, and it is sending
  nothing.
\<close>

definition detached :: "nat \<Rightarrow> notificationServer \<Rightarrow> bool" where
  "detached p s \<longleftrightarrow>
     (\<exists>sub. heap s p = Some sub \<and> closed (ch sub) \<and> (sendq (ch sub) = [] \<or> panicked s))
     \<and> p < nextp s \<and> (\<forall>u. subscribers s u \<noteq> Some p) \<and> sending s p = None"

text \<open>
  From \<open>s\<close> to \<open>s'\<close> the subscriber at \<open>p\<close> is untouched: it is the same, it has not been
  entered in the map, and its session has received nothing and sent nothing more.
\<close>

definition frame :: "nat \<Rightarrow> notificationServer \<Rightarrow> notificationServer \<Rightarrow> bool" where
  "frame p s s' \<longleftrightarrow>
     heap s' p = heap s p \<and> nextp s \<le> nextp s'
     \<and> (\<forall>u. subscribers s' u = Some p \<longrightarrow> subscribers s u = Some p)
     \<and> (panicked s \<longrightarrow> panicked s')
     \<and> sending s' p = sending s p
     \<and> filter (\<lambda>x. fst x = p) (sent s') = filter (\<lambda>x. fst x = p) (sent s)"

subsection \<open>A call of \<^verbatim>\<open>broadcast\<close> among the other goroutines\<close>

text \<open>
  The steps during which the session at \<open>p\<close> neither receives nor returns (a send of what
  it received before may succeed) and the timer of the call run by \<open>g\<close> does not fire: what the grace period of a call
  blocked on the channel of \<open>p\<close> consists of when the queue is kept full.
\<close>

fun quiet :: "nat \<Rightarrow> handler \<Rightarrow> event \<Rightarrow> bool" where
  "quiet p g (ChanRecv q) = (q \<noteq> p)"
| "quiet p g (StreamSend q ok) = (q \<noteq> p \<or> ok)"
| "quiet p g (CtxDone q) = (q \<noteq> p)"
| "quiet p g (TimerFires g') = (g' \<noteq> g)"
| "quiet p g e = True"

text \<open>The step is the arrival of a message from which the callback constructs \<open>n\<close>.\<close>

fun creates :: "event \<Rightarrow> Notification \<Rightarrow> bool" where
  "creates (NatsMsg m uuid ts) n = (decode m uuid ts = Some n)"
| "creates e n = False"

text \<open>
  The call \<open>b\<close> run by \<open>g\<close> waits in its \<^verbatim>\<open>select\<close>: the timer is set, the channel is open,
  its buffer is \<open>B\<close> and full, and \<open>g\<close> is in the queue of senders.
\<close>

definition blocked :: "handler \<Rightarrow> bcast \<Rightarrow> Notification list \<Rightarrow> notificationServer \<Rightarrow> bool" where
  "blocked g b B s \<longleftrightarrow>
     running s g = Some b \<and> b_timer b \<noteq> None \<and>
     (\<exists>sub. heap s (b_sub b) = Some sub \<and> buf (ch sub) = B \<and> cap (ch sub) \<le> length B \<and>
            \<not> closed (ch sub) \<and> g \<in> fst ` set (sendq (ch sub)))"

text \<open>
  The notification \<open>n\<close> is on a channel or on its way to one: in the buffer of a channel,
  with a sender blocked on a channel, or the argument of a call in progress (with \<open>G\<close>, the
  calls and senders of the goroutines in \<open>G\<close> are left out).
\<close>

definition carries_but :: "handler set \<Rightarrow> notificationServer \<Rightarrow> Notification \<Rightarrow> bool" where
  "carries_but G s n \<longleftrightarrow>
     (\<exists>p sub. heap s p = Some sub \<and>
        (n \<in> set (buf (ch sub)) \<or> (\<exists>w \<in> set (sendq (ch sub)). fst w \<notin> G \<and> snd (snd w) = n)))
     \<or> (\<exists>g b. g \<notin> G \<and> running s g = Some b \<and> b_notif b = n)"

definition carries :: "notificationServer \<Rightarrow> Notification \<Rightarrow> bool" where
  "carries s n \<longleftrightarrow> carries_but {} s n"

text \<open>
  The state in which a call \<^verbatim>\<open>broadcast(u, n)\<close> run by \<open>g\<close> enters its \<^verbatim>\<open>select\<close>, the
  steps \<open>es0\<close> of the other goroutines having happened since its lookup; and the state after
  the further steps \<open>es\<close>, in which its timer may fire.
\<close>

abbreviation at_select ::
  "handler \<Rightarrow> string \<Rightarrow> Notification \<Rightarrow> event list \<Rightarrow> notificationServer \<Rightarrow> notificationServer" where
  "at_select g u n es0 s \<equiv> run es0 (broadcast g u n s)"

abbreviation at_timer ::
  "handler \<Rightarrow> string \<Rightarrow> Notification \<Rightarrow> event list \<Rightarrow> event list \<Rightarrow> notificationServer \<Rightarrow> notificationServer" where
  "at_timer g u n es0 es s \<equiv> run es (step (SelectEnter g) (at_select g u n es0 s))"

subsection \<open>Messages and states of the examples\<close>

text \<open>
  The message that \<^verbatim>\<open>UpdateBilling\<close> of the billing service publishes (lines 52-70 of
  \<^verbatim>\<open>src/billing-ms/main.go\<close>): a struct with the fields \<^verbatim>\<open>Id\<close> and \<^verbatim>\<open>Message\<close>, marshalled,
  on subject \<^verbatim>\<open>bill.update\<close>; and the notification the service makes of it.
\<close>

definition bill :: "string \<Rightarrow> string \<Rightarrow> Msg" where
  "bill u msg = \<lparr>Subject = ''bill.update'',
                 Data = Some (JObject [(''Id'', JString u), (''Message'', JString msg)])\<rparr>"

definition notif :: "string \<Rightarrow> string \<Rightarrow> string \<Rightarrow> Notification" where
  "notif uuid u msg = \<lparr>Id = uuid, UserId = u, Message = msg, Timestamp = ''t''\<rparr>"

text \<open>\<open>k\<close> bill updates for u1, each delivered before the next arrives.\<close>

definition fill :: "nat \<Rightarrow> event list" where
  "fill k = concat (replicate k [NatsMsg (bill ''u1'' ''m'') ''i'' ''t'', SelectEnter BillUpdate])"

text \<open>
  One stream open for u1; the same with one notification in its channel; the same with its
  channel full; streams open for u1 and u2, one notification for u1 delivered.
\<close>

definition one_stream :: notificationServer where
  "one_stream = run [OpenStream ''u1''] init"

definition one_record :: notificationServer where
  "one_record = run [OpenStream ''u1'', NatsMsg (bill ''u1'' ''m'') ''i'' ''t'',
                     SelectEnter BillUpdate] init"

definition full_stream :: notificationServer where
  "full_stream = run (OpenStream ''u1'' # fill 10) init"

definition two_streams :: notificationServer where
  "two_streams = run [OpenStream ''u1'', OpenStream ''u2'',
                      NatsMsg (bill ''u1'' ''m'') ''i'' ''t'', SelectEnter BillUpdate] init"

section \<open>Deserialization of the two events\<close>

lemma foldName_uid: "foldName ''uid'' = ''UID''" by code_simp
lemma foldName_username: "foldName ''username'' = ''USERNAME''" by code_simp
lemma foldName_Id: "foldName ''Id'' = ''ID''" by code_simp
lemma foldName_id: "foldName ''id'' = ''ID''" by code_simp
lemma foldName_Message: "foldName ''Message'' = ''MESSAGE''" by code_simp
lemma foldName_message: "foldName ''message'' = ''MESSAGE''" by code_simp
lemma foldName_displayName: "foldName ''displayName'' = ''DISPLAYNAME''" by code_simp

lemma Unmarshal_UserCreatedEvent_object:
  "Unmarshal_UserCreatedEvent (Some (JObject [(''uid'', JString u), (''username'', JString name)]))
     = Inr \<lparr>UID = u, Username = name\<rparr>"
  by (simp add: Unmarshal_UserCreatedEvent_def foldName_uid foldName_username)

lemma Unmarshal_billUpdate_object:
  "Unmarshal_billUpdate (Some (JObject [(''Id'', JString u), (''Message'', JString msg)]))
     = Inr \<lparr>Id_bill = u, Message_bill = msg\<rparr>"
  by (simp add: Unmarshal_billUpdate_def foldName_Id foldName_Message)

lemma Unmarshal_billUpdate_object_lower:
  "Unmarshal_billUpdate (Some (JObject [(''id'', JString u), (''message'', JString msg)]))
     = Inr \<lparr>Id_bill = u, Message_bill = msg\<rparr>"
  by (simp add: Unmarshal_billUpdate_def foldName_Id foldName_Message foldName_id foldName_message
        del: foldName.simps)

lemma subscribeToEvents_decode:
  assumes "subscription (Subject m) = Some g" and "running s g = None"
  shows "subscribeToEvents m uuid ts s =
           (case decode m uuid ts of
              None \<Rightarrow> s\<lparr>logs := logs s @ (case g of
                           UserCreated \<Rightarrow> [ReceivedUserCreated (Data m), ErrorUnmarshallingUserCreated]
                         | BillUpdate \<Rightarrow> [ReceivedBillUpdate (Data m), ErrorUnmarshallingBillUpdate])\<rparr>
            | Some n \<Rightarrow> broadcast g (UserId n) n
                         (s\<lparr>logs := logs s @ [case g of UserCreated \<Rightarrow> ReceivedUserCreated (Data m)
                                                | BillUpdate \<Rightarrow> ReceivedBillUpdate (Data m)]\<rparr>))"
  using assms
  by (cases g)
     (auto simp: subscribeToEvents_def decode_def on_user_created_def on_bill_update_def
                 user_created_notif_def bill_update_notif_def Let_def split: sum.splits)


lemma subscription_simps:
  "subscription ''user.created'' = Some UserCreated"
  "subscription ''bill.update'' = Some BillUpdate"
  "subscription ''account.created'' = None"
  "subscription ''ledger.updated'' = None"
  by (simp_all add: subscription_def)

section \<open>The event decoder\<close>

text \<open>
  C4, as the specification words it, fails: a message on subject \<^verbatim>\<open>account.created\<close>
  reaches no callback, and on the subject the service subscribes to, \<^verbatim>\<open>user.created\<close>, the
  payload with \<^verbatim>\<open>uid\<close> u1 and \<^verbatim>\<open>username\<close> Ana gives the message
  \<^verbatim>\<open>Welcome to the platform, Ana!\<close>, which is not \<^verbatim>\<open>Welcome, Ana!\<close>.
\<close>

theorem C4_counterexample:
  "decode \<lparr>Subject = ''account.created'',
           Data = Some (JObject [(''id'', JString ''u1''), (''displayName'', JString ''Ana'')])\<rparr>
          ''n1'' ''t1'' = None
   \<and> decode \<lparr>Subject = ''user.created'',
             Data = Some (JObject [(''uid'', JString ''u1''), (''username'', JString ''Ana'')])\<rparr>
          ''n1'' ''t1''
       = Some \<lparr>Id = ''n1'', UserId = ''u1'', Message = ''Welcome to the platform, Ana!'',
               Timestamp = ''t1''\<rparr>
   \<and> ''Welcome to the platform, Ana!'' \<noteq> ''Welcome, Ana!''"
  by (simp add: decode_def subscription_simps Unmarshal_UserCreatedEvent_object
                user_created_notif_def)


text \<open>
  C4 (amended): for every payload on subject \<^verbatim>\<open>user.created\<close> that deserializes to an
  event with fields \<^verbatim>\<open>uid\<close> and \<^verbatim>\<open>username\<close>, the callback constructs exactly one
  notification, whose \<open>UserId\<close> is the event's \<^verbatim>\<open>uid\<close> and whose message is
  \<^verbatim>\<open>Welcome to the platform, \<close> followed by the \<^verbatim>\<open>username\<close> and \<^verbatim>\<open>!\<close>, and hands it
  to \<^verbatim>\<open>broadcast\<close> once, keyed by that \<^verbatim>\<open>uid\<close>.
\<close>

theorem C4_user_created_welcome:
  assumes "Subject m = ''user.created''"
    and "Unmarshal_UserCreatedEvent (Data m) = Inr event"
    and "running s UserCreated = None"
  shows "decode m uuid ts =
           Some \<lparr>Id = uuid, UserId = UID event,
                 Message = ''Welcome to the platform, '' @ Username event @ ''!'',
                 Timestamp = ts\<rparr>
         \<and> subscribeToEvents m uuid ts s =
             broadcast UserCreated (UID event)
               \<lparr>Id = uuid, UserId = UID event,
                 Message = ''Welcome to the platform, '' @ Username event @ ''!'',
                 Timestamp = ts\<rparr>
               (s\<lparr>logs := logs s @ [ReceivedUserCreated (Data m)]\<rparr>)"
proof -
  from assms(1,2) have d: "decode m uuid ts =
           Some \<lparr>Id = uuid, UserId = UID event,
                 Message = ''Welcome to the platform, '' @ Username event @ ''!'',
                 Timestamp = ts\<rparr>"
    by (simp add: decode_def subscription_simps user_created_notif_def)
  from assms(1,3) have "subscribeToEvents m uuid ts s =
      (case decode m uuid ts of
         None \<Rightarrow> s\<lparr>logs := logs s @ [ReceivedUserCreated (Data m), ErrorUnmarshallingUserCreated]\<rparr>
       | Some n \<Rightarrow> broadcast UserCreated (UserId n) n
                    (s\<lparr>logs := logs s @ [ReceivedUserCreated (Data m)]\<rparr>))"
    using subscribeToEvents_decode [of m UserCreated s uuid ts]
    by (simp add: subscription_simps split: option.splits)
  with d show ?thesis by simp
qed

text \<open>The payload with \<^verbatim>\<open>uid\<close> u1 and \<^verbatim>\<open>username\<close> Ana.\<close>

theorem C4_user_created_welcome_witness:
  "Subject \<lparr>Subject = ''user.created'',
            Data = Some (JObject [(''uid'', JString ''u1''), (''username'', JString ''Ana'')])\<rparr>
     = ''user.created''
   \<and> Unmarshal_UserCreatedEvent (Some (JObject [(''uid'', JString ''u1''), (''username'', JString ''Ana'')]))
     = Inr \<lparr>UID = ''u1'', Username = ''Ana''\<rparr>
   \<and> running init UserCreated = None
   \<and> decode \<lparr>Subject = ''user.created'',
             Data = Some (JObject [(''uid'', JString ''u1''), (''username'', JString ''Ana'')])\<rparr>
        ''n1'' ''t1''
     = Some \<lparr>Id = ''n1'', UserId = ''u1'', Message = ''Welcome to the platform, Ana!'',
             Timestamp = ''t1''\<rparr>"
  using C4_user_created_welcome
          [of "\<lparr>Subject = ''user.created'',
                Data = Some (JObject [(''uid'', JString ''u1''), (''username'', JString ''Ana'')])\<rparr>"
              "\<lparr>UID = ''u1'', Username = ''Ana''\<rparr>" init "''n1''" "''t1''"]
  by (simp add: Unmarshal_UserCreatedEvent_object init_def)

text \<open>
  C9, as the specification words it, fails: the service has no subscription on
  \<^verbatim>\<open>ledger.updated\<close>; a message on that subject constructs no notification and leaves the
  service as it was. The billing service publishes on \<^verbatim>\<open>bill.update\<close>, and that is the
  subject of the second callback.
\<close>

theorem C9_counterexample:
  "decode \<lparr>Subject = ''ledger.updated'',
           Data = Some (JObject [(''id'', JString ''u2''), (''message'', JString ''Balance: $42.00'')])\<rparr>
          ''n1'' ''t1'' = None
   \<and> subscribeToEvents
        \<lparr>Subject = ''ledger.updated'',
          Data = Some (JObject [(''id'', JString ''u2''), (''message'', JString ''Balance: $42.00'')])\<rparr>
        ''n1'' ''t1'' init = init"
  by (simp add: decode_def subscribeToEvents_def subscription_simps)

text \<open>
  C9 (amended): for every payload on subject \<^verbatim>\<open>bill.update\<close> that deserializes to an
  event with fields \<^verbatim>\<open>Id\<close> and \<^verbatim>\<open>Message\<close>, the callback constructs exactly one
  notification, whose \<open>UserId\<close> is the event's \<^verbatim>\<open>Id\<close> and whose message is the event's
  \<^verbatim>\<open>Message\<close>, unchanged, and hands it to \<^verbatim>\<open>broadcast\<close> once, keyed by that \<^verbatim>\<open>Id\<close>.
\<close>

theorem C9_bill_update_verbatim:
  assumes "Subject m = ''bill.update''"
    and "Unmarshal_billUpdate (Data m) = Inr event"
    and "running s BillUpdate = None"
  shows "decode m uuid ts =
           Some \<lparr>Id = uuid, UserId = Id_bill event, Message = Message_bill event, Timestamp = ts\<rparr>
         \<and> subscribeToEvents m uuid ts s =
             broadcast BillUpdate (Id_bill event)
               \<lparr>Id = uuid, UserId = Id_bill event, Message = Message_bill event, Timestamp = ts\<rparr>
               (s\<lparr>logs := logs s @ [ReceivedBillUpdate (Data m)]\<rparr>)"
proof -
  from assms(1,2) have d: "decode m uuid ts =
           Some \<lparr>Id = uuid, UserId = Id_bill event, Message = Message_bill event, Timestamp = ts\<rparr>"
    by (simp add: decode_def subscription_simps bill_update_notif_def)
  from assms(1,3) have "subscribeToEvents m uuid ts s =
      (case decode m uuid ts of
         None \<Rightarrow> s\<lparr>logs := logs s @ [ReceivedBillUpdate (Data m), ErrorUnmarshallingBillUpdate]\<rparr>
       | Some n \<Rightarrow> broadcast BillUpdate (UserId n) n
                    (s\<lparr>logs := logs s @ [ReceivedBillUpdate (Data m)]\<rparr>))"
    using subscribeToEvents_decode [of m BillUpdate s uuid ts]
    by (simp add: subscription_simps split: option.splits)
  with d show ?thesis by simp
qed

text \<open>
  The payload of the specification's scenario B; its lower-case keys match the fields
  \<^verbatim>\<open>Id\<close> and \<^verbatim>\<open>Message\<close> by case folding. No stream is registered for u2.
\<close>

theorem C9_bill_update_verbatim_witness:
  "Unmarshal_billUpdate (Some (JObject [(''id'', JString ''u2''), (''message'', JString ''Balance: $42.00'')]))
     = Inr \<lparr>Id_bill = ''u2'', Message_bill = ''Balance: $42.00''\<rparr>
   \<and> running init BillUpdate = None
   \<and> decode \<lparr>Subject = ''bill.update'',
             Data = Some (JObject [(''id'', JString ''u2''), (''message'', JString ''Balance: $42.00'')])\<rparr>
        ''n1'' ''t1''
     = Some \<lparr>Id = ''n1'', UserId = ''u2'', Message = ''Balance: $42.00'', Timestamp = ''t1''\<rparr>
   \<and> logs (subscribeToEvents
        \<lparr>Subject = ''bill.update'',
          Data = Some (JObject [(''id'', JString ''u2''), (''message'', JString ''Balance: $42.00'')])\<rparr>
        ''n1'' ''t1'' init)
     = [ReceivedBillUpdate (Some (JObject [(''id'', JString ''u2''), (''message'', JString ''Balance: $42.00'')])),
        NoActiveSubscribers ''u2'']"
  using C9_bill_update_verbatim
          [of "\<lparr>Subject = ''bill.update'',
                Data = Some (JObject [(''id'', JString ''u2''), (''message'', JString ''Balance: $42.00'')])\<rparr>"
              "\<lparr>Id_bill = ''u2'', Message_bill = ''Balance: $42.00''\<rparr>" init "''n1''" "''t1''"]
  by (simp add: Unmarshal_billUpdate_object_lower init_def broadcast_def)

text \<open>
  C5, as the specification words it, fails: the empty object deserializes without error
  into an event whose \<^verbatim>\<open>UID\<close> is empty; the callback constructs a notification with an
  empty \<open>UserId\<close> and calls \<^verbatim>\<open>broadcast\<close> with the empty key.
\<close>

theorem C5_counterexample:
  "decode \<lparr>Subject = ''user.created'', Data = Some (JObject [])\<rparr> ''n1'' ''t1''
     = Some \<lparr>Id = ''n1'', UserId = [], Message = ''Welcome to the platform, !'', Timestamp = ''t1''\<rparr>
   \<and> subscribeToEvents \<lparr>Subject = ''user.created'', Data = Some (JObject [])\<rparr> ''n1'' ''t1'' init
     = broadcast UserCreated []
         \<lparr>Id = ''n1'', UserId = [], Message = ''Welcome to the platform, !'', Timestamp = ''t1''\<rparr>
         (init\<lparr>logs := [ReceivedUserCreated (Some (JObject []))]\<rparr>)"
  by (simp add: decode_def subscribeToEvents_def subscription_simps on_user_created_def
                Unmarshal_UserCreatedEvent_def user_created_notif_def init_def)

text \<open>
  C5 (amended): a message on a subscribed subject is discarded before a notification is
  constructed exactly when its deserialization fails. Otherwise the notification that
  reaches \<^verbatim>\<open>broadcast\<close> has as \<open>UserId\<close> the id of the deserialized event (\<^verbatim>\<open>UID\<close> on
  \<^verbatim>\<open>user.created\<close>, \<^verbatim>\<open>Id\<close> on \<^verbatim>\<open>bill.update\<close>), whatever it is, and \<^verbatim>\<open>broadcast\<close> is
  called with that same id as its key. Nothing checks that the id is not empty.
\<close>

theorem C5_recipient_is_decoded_id:
  assumes "subscription (Subject m) = Some g"
  shows "(decode m uuid ts = None \<longleftrightarrow>
            (g = UserCreated \<and> (\<exists>err. Unmarshal_UserCreatedEvent (Data m) = Inl err)) \<or>
            (g = BillUpdate \<and> (\<exists>err. Unmarshal_billUpdate (Data m) = Inl err)))
         \<and> (\<forall>n. decode m uuid ts = Some n \<longrightarrow>
               ((g = UserCreated \<and> (\<exists>ev. Unmarshal_UserCreatedEvent (Data m) = Inr ev \<and> UserId n = UID ev)) \<or>
                (g = BillUpdate \<and> (\<exists>ev. Unmarshal_billUpdate (Data m) = Inr ev \<and> UserId n = Id_bill ev)))
               \<and> (running s g = None \<longrightarrow>
                    (\<exists>l. subscribeToEvents m uuid ts s = broadcast g (UserId n) n (s\<lparr>logs := logs s @ [l]\<rparr>))))"
proof -
  have a: "decode m uuid ts = None \<longleftrightarrow>
            (g = UserCreated \<and> (\<exists>err. Unmarshal_UserCreatedEvent (Data m) = Inl err)) \<or>
            (g = BillUpdate \<and> (\<exists>err. Unmarshal_billUpdate (Data m) = Inl err))"
    using assms by (cases g) (auto simp: decode_def split: sum.splits)
  have b: "((g = UserCreated \<and> (\<exists>ev. Unmarshal_UserCreatedEvent (Data m) = Inr ev \<and> UserId n = UID ev)) \<or>
            (g = BillUpdate \<and> (\<exists>ev. Unmarshal_billUpdate (Data m) = Inr ev \<and> UserId n = Id_bill ev)))"
    if "decode m uuid ts = Some n" for n
    using assms that
    by (cases g) (auto simp: decode_def user_created_notif_def bill_update_notif_def split: sum.splits)
  have c: "\<exists>l. subscribeToEvents m uuid ts s = broadcast g (UserId n) n (s\<lparr>logs := logs s @ [l]\<rparr>)"
    if "decode m uuid ts = Some n" "running s g = None" for n
    using subscribeToEvents_decode [OF assms that(2), of uuid ts] that(1) by auto
  from a b c show ?thesis by blast
qed

text \<open>The empty object on \<^verbatim>\<open>user.created\<close>.\<close>

theorem C5_recipient_is_decoded_id_witness:
  "subscription (Subject \<lparr>Subject = ''user.created'', Data = Some (JObject [])\<rparr>) = Some UserCreated
   \<and> decode \<lparr>Subject = ''user.created'', Data = Some (JObject [])\<rparr> ''n1'' ''t1''
       = Some \<lparr>Id = ''n1'', UserId = [], Message = ''Welcome to the platform, !'', Timestamp = ''t1''\<rparr>
   \<and> running init UserCreated = None
   \<and> (\<exists>ev. Unmarshal_UserCreatedEvent (Some (JObject [])) = Inr ev \<and> [] = UID ev)"
  using C5_recipient_is_decoded_id
          [of "\<lparr>Subject = ''user.created'', Data = Some (JObject [])\<rparr>" UserCreated "''n1''" "''t1''" init]
  by (simp add: subscription_simps decode_def Unmarshal_UserCreatedEvent_def user_created_notif_def init_def)

text \<open>
  C8: when the deserialization of a payload fails, on either subscribed subject, no
  notification is constructed; the callback only writes to the log (the line for the message
  received and the line for the failure, or nothing while the message waits for the callback
  to be free): the map of subscribers, every subscriber and its channel, the calls of
  \<^verbatim>\<open>broadcast\<close> in progress and the streams are as before. The run goes on with the next
  event from that state.
\<close>

theorem C8_decode_failure_is_dropped:
  assumes "subscription (Subject m) = Some g"
    and "(g = UserCreated \<and> Unmarshal_UserCreatedEvent (Data m) = Inl err) \<or>
         (g = BillUpdate \<and> Unmarshal_billUpdate (Data m) = Inl err)"
  shows "decode m uuid ts = None
         \<and> subscribeToEvents m uuid ts s =
             s\<lparr>logs := logs s @
                  (if running s g \<noteq> None then []
                   else case g of
                          UserCreated \<Rightarrow> [ReceivedUserCreated (Data m), ErrorUnmarshallingUserCreated]
                        | BillUpdate \<Rightarrow> [ReceivedBillUpdate (Data m), ErrorUnmarshallingBillUpdate])\<rparr>
         \<and> (\<exists>l. run (NatsMsg m uuid ts # es) s = run es (s\<lparr>logs := logs s @ l\<rparr>))"
proof -
  from assms have d: "decode m uuid ts = None"
    by (auto simp: decode_def)
  have e: "subscribeToEvents m uuid ts s =
             s\<lparr>logs := logs s @
                  (if running s g \<noteq> None then []
                   else case g of
                          UserCreated \<Rightarrow> [ReceivedUserCreated (Data m), ErrorUnmarshallingUserCreated]
                        | BillUpdate \<Rightarrow> [ReceivedBillUpdate (Data m), ErrorUnmarshallingBillUpdate])\<rparr>"
  proof (cases "running s g = None")
    case True
    with subscribeToEvents_decode [OF assms(1) True, of uuid ts] d show ?thesis by simp
  next
    case False
    with assms(1) show ?thesis by (simp add: subscribeToEvents_def)
  qed
  have "\<exists>l. step (NatsMsg m uuid ts) s = s\<lparr>logs := logs s @ l\<rparr>"
  proof (cases "panicked s")
    case True
    then have "step (NatsMsg m uuid ts) s = s\<lparr>logs := logs s @ []\<rparr>" by (simp add: step_def)
    then show ?thesis by blast
  next
    case False
    then have "step (NatsMsg m uuid ts) s = subscribeToEvents m uuid ts s" by (simp add: step_def)
    with e show ?thesis by metis
  qed
  then have "\<exists>l. run (NatsMsg m uuid ts # es) s = run es (s\<lparr>logs := logs s @ l\<rparr>)"
    by auto
  with d e show ?thesis by blast
qed

text \<open>
  A payload whose \<^verbatim>\<open>Id\<close> is a number, received while a stream is open for u1; bytes
  that are not JSON fail as well.
\<close>

theorem C8_decode_failure_is_dropped_witness:
  "subscription (Subject \<lparr>Subject = ''bill.update'', Data = Some (JObject [(''Id'', JNumber ''7'')])\<rparr>) = Some BillUpdate
   \<and> Unmarshal_billUpdate (Some (JObject [(''Id'', JNumber ''7'')])) = Inl UnmarshalTypeError
   \<and> Unmarshal_billUpdate None = Inl SyntaxError
   \<and> decode \<lparr>Subject = ''bill.update'', Data = Some (JObject [(''Id'', JNumber ''7'')])\<rparr> ''n1'' ''t1'' = None
   \<and> subscribeToEvents \<lparr>Subject = ''bill.update'', Data = Some (JObject [(''Id'', JNumber ''7'')])\<rparr> ''n1'' ''t1''
        (SubscribeToNotifications ''u1'' init)
     = (SubscribeToNotifications ''u1'' init)
         \<lparr>logs := [NewSubscriber ''u1'',
                   ReceivedBillUpdate (Some (JObject [(''Id'', JNumber ''7'')])),
                   ErrorUnmarshallingBillUpdate]\<rparr>"
  using C8_decode_failure_is_dropped
          [of "\<lparr>Subject = ''bill.update'', Data = Some (JObject [(''Id'', JNumber ''7'')])\<rparr>"
              BillUpdate UnmarshalTypeError "''n1''" "''t1''" "SubscribeToNotifications ''u1'' init" "[]"]
  by (simp add: subscription_simps Unmarshal_billUpdate_def foldName_Id init_def
                SubscribeToNotifications_def)

section \<open>The steps of the service and the invariant of its runs\<close>

lemma wf_init: "wf init"
  by (simp add: wf_def reg_ok_def heap_ok_def sendq_ok_def init_def)

lemma reg_ok_shape:
  "reg_ok s \<longleftrightarrow> (\<forall>u p. subscribers s u = Some p \<longrightarrow> shape s p = Some (u, False))"
  by (auto simp: reg_ok_def shape_def)

lemma heap_ok_shape: "heap_ok s \<longleftrightarrow> (\<forall>p. nextp s \<le> p \<longrightarrow> shape s p = None)"
  by (simp add: heap_ok_def shape_def)

lemma reg_ok_same:
  "reg_ok s \<Longrightarrow> subscribers s' = subscribers s \<Longrightarrow> shape s' = shape s \<Longrightarrow> reg_ok s'"
  by (simp add: reg_ok_shape)

lemma heap_ok_same:
  "heap_ok s \<Longrightarrow> nextp s' = nextp s \<Longrightarrow> shape s' = shape s \<Longrightarrow> heap_ok s'"
  by (simp add: heap_ok_shape)

subsection \<open>The outcomes of the steps of broadcast\<close>

lemma broadcast_cases:
  obtains (none) "subscribers s u = None"
      "broadcast g u n s = s\<lparr>logs := logs s @ [NoActiveSubscribers u]\<rparr>"
    | (found) p where "subscribers s u = Some p"
      "broadcast g u n s =
         s\<lparr>running := (running s)(g \<mapsto> \<lparr>b_userID = u, b_notif = n, b_sub = p, b_timer = None\<rparr>)\<rparr>"
  by (cases "subscribers s u") (auto simp: broadcast_def)

lemma broadcast_select_cases:
  obtains (skip) "broadcast_select g s = s"
    | (panic) b sub where "running s g = Some b" "b_timer b = None"
        "heap s (b_sub b) = Some sub" "closed (ch sub)"
        "broadcast_select g s = s\<lparr>panicked := True\<rparr>"
    | (enqueue) b sub where "running s g = Some b" "b_timer b = None"
        "heap s (b_sub b) = Some sub" "\<not> closed (ch sub)" "length (buf (ch sub)) < cap (ch sub)"
        "broadcast_select g s =
           s\<lparr>heap := (heap s)(b_sub b \<mapsto> sub\<lparr>ch := (ch sub)\<lparr>buf := buf (ch sub) @ [b_notif b]\<rparr>\<rparr>),
             running := (running s)(g := None),
             logs := logs s @ [SuccessfullyBroadcasted (b_userID b)]\<rparr>"
    | (block) b sub where "running s g = Some b" "b_timer b = None"
        "heap s (b_sub b) = Some sub" "\<not> closed (ch sub)" "cap (ch sub) \<le> length (buf (ch sub))"
        "broadcast_select g s =
           s\<lparr>heap := (heap s)(b_sub b \<mapsto>
                      sub\<lparr>ch := (ch sub)\<lparr>sendq := sendq (ch sub) @ [(g, b_userID b, b_notif b)]\<rparr>\<rparr>),
             running := (running s)(g \<mapsto> b\<lparr>b_timer := Some (now s + 1 * Second)\<rparr>)\<rparr>"
proof (cases "running s g")
  case None
  then show ?thesis using skip by (simp add: broadcast_select_def)
next
  case (Some b)
  show ?thesis
  proof (cases "b_timer b")
    case (Some t)
    with \<open>running s g = Some b\<close> show ?thesis using skip by (simp add: broadcast_select_def)
  next
    case None
    note tm = this
    show ?thesis
    proof (cases "heap s (b_sub b)")
      case None
      with tm \<open>running s g = Some b\<close> show ?thesis using skip by (simp add: broadcast_select_def)
    next
      case (Some sub)
      consider "closed (ch sub)"
        | "\<not> closed (ch sub)" "length (buf (ch sub)) < cap (ch sub)"
        | "\<not> closed (ch sub)" "cap (ch sub) \<le> length (buf (ch sub))"
        by linarith
      then show ?thesis
      proof cases
        case 1
        with tm Some \<open>running s g = Some b\<close> show ?thesis
          using panic [of b sub] by (simp add: broadcast_select_def)
      next
        case 2
        with tm Some \<open>running s g = Some b\<close> show ?thesis
          using enqueue [of b sub] by (simp add: broadcast_select_def)
      next
        case 3
        with tm Some \<open>running s g = Some b\<close> show ?thesis
          using block [of b sub] by (simp add: broadcast_select_def)
      qed
    qed
  qed
qed

lemma broadcast_timeout_cases:
  obtains (skip) "broadcast_timeout g s = s"
    | (drop) b t sub where "running s g = Some b" "b_timer b = Some t"
        "heap s (b_sub b) = Some sub" "t \<le> now s" "g \<in> fst ` set (sendq (ch sub))"
        "broadcast_timeout g s =
           s\<lparr>heap := (heap s)(b_sub b \<mapsto>
                      sub\<lparr>ch := (ch sub)\<lparr>sendq := filter (\<lambda>w. fst w \<noteq> g) (sendq (ch sub))\<rparr>\<rparr>),
             running := (running s)(g := None),
             logs := logs s @ [ChannelFullDropping (b_userID b)]\<rparr>"
proof (cases "running s g")
  case None
  then show ?thesis using skip by (simp add: broadcast_timeout_def)
next
  case (Some b)
  show ?thesis
  proof (cases "b_timer b")
    case None
    with \<open>running s g = Some b\<close> show ?thesis using skip by (simp add: broadcast_timeout_def)
  next
    case (Some t)
    note tm = this
    show ?thesis
    proof (cases "heap s (b_sub b)")
      case None
      with tm \<open>running s g = Some b\<close> show ?thesis using skip by (simp add: broadcast_timeout_def)
    next
      case (Some sub)
      show ?thesis
      proof (cases "now s < t \<or> g \<notin> fst ` set (sendq (ch sub))")
        case True
        with tm Some \<open>running s g = Some b\<close> show ?thesis
          using skip by (simp add: broadcast_timeout_def)
      next
        case False
        with tm Some \<open>running s g = Some b\<close> show ?thesis
          using drop [of b t sub] by (simp add: broadcast_timeout_def)
      qed
    qed
  qed
qed

lemma chanrecv_cases:
  obtains (none) "heap s p = None" "chanrecv p s = s"
    | (plain) sub where "heap s p = Some sub" "sendq (ch sub) = []"
      "chanrecv p s = s\<lparr>heap := (heap s)(p \<mapsto> sub\<lparr>ch := (ch sub)\<lparr>buf := tl (buf (ch sub))\<rparr>\<rparr>)\<rparr>"
    | (handoff) sub w ws where "heap s p = Some sub" "sendq (ch sub) = w # ws"
      "chanrecv p s =
         s\<lparr>heap := (heap s)(p \<mapsto> sub\<lparr>ch := (ch sub)\<lparr>buf := tl (buf (ch sub)) @ [snd (snd w)],
                                                     sendq := ws\<rparr>\<rparr>),
           running := (running s)(fst w := None),
           logs := logs s @ [SuccessfullyBroadcasted (fst (snd w))]\<rparr>"
proof (cases "heap s p")
  case None
  then show ?thesis using none by (simp add: chanrecv_def)
next
  case (Some sub)
  then show ?thesis using plain [of sub] handoff [of sub]
    by (cases "sendq (ch sub)") (auto simp: chanrecv_def)
qed

lemma session_recv_cases:
  obtains (skip) "session_recv p s = s"
    | (recv) sub notif rest where "heap s p = Some sub" "buf (ch sub) = notif # rest"
        "\<not> closed (ch sub)" "sending s p = None"
        "session_recv p s = (chanrecv p s)\<lparr>sending := (sending s)(p \<mapsto> notif)\<rparr>"
proof (cases "heap s p")
  case None
  then show ?thesis using skip by (simp add: session_recv_def)
next
  case (Some sub)
  show ?thesis
  proof (cases "buf (ch sub)")
    case Nil
    with Some show ?thesis using skip by (simp add: session_recv_def)
  next
    case (Cons notif rest)
    show ?thesis
    proof (cases "closed (ch sub) \<or> sending s p \<noteq> None")
      case True
      with Some Cons show ?thesis using skip by (simp add: session_recv_def)
    next
      case False
      with Some Cons show ?thesis
        using recv [of sub notif rest] by (simp add: session_recv_def)
    qed
  qed
qed

lemma session_send_cases:
  obtains (skip) "session_send p ok s = s"
    | (sent) notif where "sending s p = Some notif" "ok"
        "session_send p ok s = s\<lparr>sending := (sending s)(p := None), sent := sent s @ [(p, notif)]\<rparr>"
    | (fail) notif sub where "sending s p = Some notif" "\<not> ok" "heap s p = Some sub"
        "session_send p ok s =
           detach p (s\<lparr>sending := (sending s)(p := None),
                       logs := logs s @ [ErrorSendingToStream (userId sub)]\<rparr>)"
proof (cases "sending s p")
  case None
  then show ?thesis using skip by (simp add: session_send_def)
next
  case (Some notif)
  show ?thesis
  proof (cases ok)
    case True
    with Some show ?thesis using sent [of notif] by (simp add: session_send_def)
  next
    case False
    with Some show ?thesis using skip fail [of notif]
      by (cases "heap s p") (simp_all add: session_send_def)
  qed
qed

lemma session_done_cases:
  obtains (skip) "session_done p s = s"
    | (exit) sub where "heap s p = Some sub" "\<not> closed (ch sub)" "sending s p = None"
        "session_done p s = detach p (s\<lparr>logs := logs s @ [ClientDisconnected (userId sub)]\<rparr>)"
proof (cases "heap s p")
  case None
  then show ?thesis using skip by (simp add: session_done_def)
next
  case (Some sub)
  then show ?thesis using skip exit [of sub]
    by (cases "closed (ch sub) \<or> sending s p \<noteq> None") (simp_all add: session_done_def)
qed

lemma detach_eq:
  "heap s p = Some sub \<Longrightarrow>
   detach p s =
     s\<lparr>subscribers := (subscribers s)(userId sub := None),
       heap := (heap s)(p \<mapsto> sub\<lparr>ch := (ch sub)\<lparr>closed := True\<rparr>\<rparr>),
       panicked := (panicked s \<or> sendq (ch sub) \<noteq> []),
       logs := logs s @ [SubscriberDisconnected (userId sub)]\<rparr>"
  by (simp add: detach_def)

subsection \<open>The invariant holds in every run\<close>

lemma reg_ok_logs [simp]: "reg_ok (s\<lparr>logs := l\<rparr>) = reg_ok s"
  by (simp add: reg_ok_def)

lemma heap_ok_logs [simp]: "heap_ok (s\<lparr>logs := l\<rparr>) = heap_ok s"
  by (simp add: heap_ok_def)

lemma sendq_ok_logs [simp]: "sendq_ok (s\<lparr>logs := l\<rparr>) = sendq_ok s"
  by (simp add: sendq_ok_def)

lemma wf_logs [simp]: "wf (s\<lparr>logs := l\<rparr>) = wf s"
  by (simp add: wf_def)

lemma wf_sent [simp]: "wf (s\<lparr>sent := l\<rparr>) = wf s"
  by (simp add: wf_def reg_ok_def heap_ok_def sendq_ok_def)

lemma wf_sending [simp]: "wf (s\<lparr>sending := l\<rparr>) = wf s"
  by (simp add: wf_def reg_ok_def heap_ok_def sendq_ok_def)

lemma wf_now [simp]: "wf (s\<lparr>now := l\<rparr>) = wf s"
  by (simp add: wf_def reg_ok_def heap_ok_def sendq_ok_def)

lemma wf_panicked [simp]: "wf (s\<lparr>panicked := l\<rparr>) = wf s"
  by (simp add: wf_def reg_ok_def heap_ok_def sendq_ok_def)

lemma sendq_okD:
  "sendq_ok s \<Longrightarrow> heap s p = Some sub \<Longrightarrow> w \<in> set (sendq (ch sub)) \<Longrightarrow>
   \<exists>b. running s (fst w) = Some b \<and> b_sub b = p \<and> b_timer b \<noteq> None"
  by (auto simp: sendq_ok_def)

lemma sendq_ok_distinct:
  "sendq_ok s \<Longrightarrow> heap s p = Some sub \<Longrightarrow> distinct (map fst (sendq (ch sub)))"
  by (auto simp: sendq_ok_def)

lemma wf_distinct: "wf s \<Longrightarrow> heap s p = Some sub \<Longrightarrow> distinct (map fst (sendq (ch sub)))"
  by (auto simp: wf_def sendq_ok_def)

lemma wf_sendqD:
  "wf s \<Longrightarrow> heap s p = Some sub \<Longrightarrow> w \<in> set (sendq (ch sub)) \<Longrightarrow>
   \<exists>b. running s (fst w) = Some b \<and> b_sub b = p \<and> b_timer b \<noteq> None"
  by (auto simp: wf_def sendq_ok_def)

lemma wf_regD:
  "wf s \<Longrightarrow> subscribers s u = Some p \<Longrightarrow>
   \<exists>sub. heap s p = Some sub \<and> userId sub = u \<and> \<not> closed (ch sub)"
  by (auto simp: wf_def reg_ok_def)

lemma wf_heapD: "wf s \<Longrightarrow> heap s p = Some sub \<Longrightarrow> p < nextp s"
  by (rule ccontr) (auto simp: wf_def heap_ok_def not_less)

text \<open>
  A step that keeps the map, the next address and, of every subscriber, the user id and the
  closed flag, keeps the invariant if it keeps the queues of blocked senders in order.
\<close>

lemma wf_same:
  assumes "wf s" and "subscribers s' = subscribers s" and "nextp s' = nextp s"
    and "\<And>q. shape s' q = shape s q" and "sendq_ok s'"
  shows "wf s'"
proof -
  from assms(4) have "shape s' = shape s" by (simp add: fun_eq_iff)
  with assms reg_ok_same [of s s'] heap_ok_same [of s s'] show ?thesis by (simp add: wf_def)
qed

lemma wf_broadcast:
  assumes "wf s" and "running s g = None"
  shows "wf (broadcast g u n s)"
proof (cases rule: broadcast_cases [of s u g n])
  case none
  with assms show ?thesis by simp
next
  case (found p)
  have "sendq_ok (broadcast g u n s)"
    unfolding sendq_ok_def
  proof (intro allI impI conjI ballI)
    fix q sub
    assume h: "heap (broadcast g u n s) q = Some sub"
    with found have h': "heap s q = Some sub" by simp
    with assms show "distinct (map fst (sendq (ch sub)))"
      by (simp add: wf_distinct)
    fix w assume "w \<in> set (sendq (ch sub))"
    with assms h' obtain b where b: "running s (fst w) = Some b" "b_sub b = q" "b_timer b \<noteq> None"
      using wf_sendqD [of s q sub w] by auto
    with assms(2) have "fst w \<noteq> g" by auto
    with b found show "\<exists>b. running (broadcast g u n s) (fst w) = Some b \<and> b_sub b = q \<and> b_timer b \<noteq> None"
      by simp
  qed
  with assms(1) found show ?thesis
    by - (rule wf_same [of s], simp_all add: shape_def)
qed

lemma wf_subscribeToEvents: "wf s \<Longrightarrow> wf (subscribeToEvents m uuid ts s)"
  by (auto simp: subscribeToEvents_def on_user_created_def on_bill_update_def Let_def
           intro!: wf_broadcast split: option.splits handler.splits sum.splits)

text \<open>A call that has not entered its select is in no queue of blocked senders.\<close>

lemma wf_not_queued:
  assumes "wf s" and "running s g = Some b" and "b_timer b = None"
    and "heap s q = Some sub"
  shows "g \<notin> fst ` set (sendq (ch sub))"
proof
  assume "g \<in> fst ` set (sendq (ch sub))"
  then obtain w where "w \<in> set (sendq (ch sub))" "fst w = g" by auto
  with assms(1,4) wf_sendqD [of s q sub w] obtain b' where "running s g = Some b'" "b_timer b' \<noteq> None"
    by auto
  with assms(2,3) show False by simp
qed

text \<open>A blocked call is in the queue of the channel it sends on, and in no other.\<close>

lemma wf_queued_here:
  assumes "wf s" and "running s g = Some b" and "heap s q = Some sub"
    and "g \<in> fst ` set (sendq (ch sub))"
  shows "q = b_sub b"
proof -
  from assms(4) obtain w where "w \<in> set (sendq (ch sub))" "fst w = g" by auto
  with assms(1,3) wf_sendqD [of s q sub w] obtain b' where "running s g = Some b'" "b_sub b' = q"
    by auto
  with assms(2) show ?thesis by simp
qed

lemma wf_select:
  assumes "wf s"
  shows "wf (broadcast_select g s)"
proof (cases rule: broadcast_select_cases [of g s])
  case skip
  with assms show ?thesis by simp
next
  case (panic b sub)
  with assms show ?thesis by simp
next
  case (enqueue b sub)
  let ?s' = "broadcast_select g s"
  have "sendq_ok ?s'"
    unfolding sendq_ok_def
  proof (intro allI impI conjI ballI)
    fix q sub'
    assume h: "heap ?s' q = Some sub'"
    then obtain sub0 where s0: "heap s q = Some sub0" "sendq (ch sub') = sendq (ch sub0)"
      using enqueue by (cases "q = b_sub b") auto
    with assms show "distinct (map fst (sendq (ch sub')))"
      using wf_distinct [of s q sub0] by simp
    fix w assume w: "w \<in> set (sendq (ch sub'))"
    with assms s0 obtain b' where b': "running s (fst w) = Some b'" "b_sub b' = q" "b_timer b' \<noteq> None"
      using wf_sendqD [of s q sub0 w] by auto
    from w s0 have "fst w \<in> fst ` set (sendq (ch sub0))" by auto
    with wf_not_queued [OF assms enqueue(1,2) s0(1)] have "fst w \<noteq> g" by auto
    with b' enqueue show "\<exists>b. running ?s' (fst w) = Some b \<and> b_sub b = q \<and> b_timer b \<noteq> None"
      by simp
  qed
  with assms enqueue show ?thesis
    by - (rule wf_same [of s], simp_all add: shape_def)
next
  case (block b sub)
  let ?s' = "broadcast_select g s"
  have "sendq_ok ?s'"
    unfolding sendq_ok_def
  proof (intro allI impI conjI ballI)
    fix q sub'
    assume h: "heap ?s' q = Some sub'"
    show "distinct (map fst (sendq (ch sub')))"
    proof (cases "q = b_sub b")
      case True
      with h block have "sendq (ch sub') = sendq (ch sub) @ [(g, b_userID b, b_notif b)]" by auto
      with wf_distinct [OF assms block(3)] wf_not_queued [OF assms block(1,2,3)]
      show ?thesis by simp
    next
      case False
      with h block have "heap s q = Some sub'" by simp
      with assms show ?thesis by (simp add: wf_distinct)
    qed
    fix w assume w: "w \<in> set (sendq (ch sub'))"
    show "\<exists>b. running ?s' (fst w) = Some b \<and> b_sub b = q \<and> b_timer b \<noteq> None"
    proof (cases "fst w = g")
      case True
      have "q = b_sub b"
      proof (rule ccontr)
        assume "q \<noteq> b_sub b"
        with h block have "heap s q = Some sub'" by simp
        with wf_not_queued [OF assms block(1,2) this] w True show False by auto
      qed
      with True block show ?thesis by simp
    next
      case False
      from h block obtain sub0 where s0: "heap s q = Some sub0"
        "set (sendq (ch sub')) \<subseteq> set (sendq (ch sub0)) \<union> {(g, b_userID b, b_notif b)}"
        by (cases "q = b_sub b") auto
      with w False have "w \<in> set (sendq (ch sub0))" by auto
      with assms s0 obtain b' where "running s (fst w) = Some b'" "b_sub b' = q" "b_timer b' \<noteq> None"
        using wf_sendqD [of s q sub0 w] by auto
      with False block show ?thesis by simp
    qed
  qed
  with assms block show ?thesis
    by - (rule wf_same [of s], simp_all add: shape_def)
qed

lemma wf_timeout:
  assumes "wf s"
  shows "wf (broadcast_timeout g s)"
proof (cases rule: broadcast_timeout_cases [of g s])
  case skip
  with assms show ?thesis by simp
next
  case (drop b t sub)
  let ?s' = "broadcast_timeout g s"
  have "sendq_ok ?s'"
    unfolding sendq_ok_def
  proof (intro allI impI conjI ballI)
    fix q sub'
    assume h: "heap ?s' q = Some sub'"
    from h drop obtain sub0 where s0: "heap s q = Some sub0"
      "sendq (ch sub') = (if q = b_sub b then filter (\<lambda>w. fst w \<noteq> g) (sendq (ch sub0)) else sendq (ch sub0))"
      by (cases "q = b_sub b") auto
    with wf_distinct [OF assms s0(1)] show "distinct (map fst (sendq (ch sub')))"
      by (simp add: distinct_map_filter)
    fix w assume w: "w \<in> set (sendq (ch sub'))"
    with s0 have w0: "w \<in> set (sendq (ch sub0))" by (auto split: if_splits)
    with assms s0 obtain b' where b': "running s (fst w) = Some b'" "b_sub b' = q" "b_timer b' \<noteq> None"
      using wf_sendqD [of s q sub0 w] by auto
    have "fst w \<noteq> g"
    proof
      assume e: "fst w = g"
      with w0 have "g \<in> fst ` set (sendq (ch sub0))" by auto
      with wf_queued_here [OF assms drop(1) s0(1)] have "q = b_sub b" by simp
      with w s0 e show False by simp
    qed
    with b' drop show "\<exists>b. running ?s' (fst w) = Some b \<and> b_sub b = q \<and> b_timer b \<noteq> None"
      by simp
  qed
  with assms drop show ?thesis
    by - (rule wf_same [of s], simp_all add: shape_def)
qed

lemma wf_SubscribeToNotifications:
  assumes "wf s"
  shows "wf (SubscribeToNotifications userID s)"
proof -
  let ?s' = "SubscribeToNotifications userID s"
  have fresh: "heap s (nextp s) = None"
    using assms by (simp add: wf_def heap_ok_def)
  have "reg_ok ?s'"
    unfolding reg_ok_def
  proof (intro allI impI)
    fix u p assume "subscribers ?s' u = Some p"
    then consider "u = userID" "p = nextp s" | "u \<noteq> userID" "subscribers s u = Some p"
      by (auto simp: SubscribeToNotifications_def split: if_splits)
    then show "\<exists>sub. heap ?s' p = Some sub \<and> userId sub = u \<and> \<not> closed (ch sub)"
    proof cases
      case 1
      then show ?thesis by (simp add: SubscribeToNotifications_def)
    next
      case 2
      with assms obtain sub where "heap s p = Some sub" "userId sub = u" "\<not> closed (ch sub)"
        using wf_regD by blast
      with fresh show ?thesis by (auto simp: SubscribeToNotifications_def)
    qed
  qed
  moreover have "heap_ok ?s'"
    using assms by (auto simp: wf_def heap_ok_def SubscribeToNotifications_def)
  moreover have "sendq_ok ?s'"
    unfolding sendq_ok_def
  proof (intro allI impI conjI ballI)
    fix q sub'
    assume h: "heap ?s' q = Some sub'"
    then consider "q = nextp s" "sendq (ch sub') = []" | "q \<noteq> nextp s" "heap s q = Some sub'"
      by (auto simp: SubscribeToNotifications_def split: if_splits)
    note c = this
    from c show "distinct (map fst (sendq (ch sub')))"
      using assms by cases (simp_all add: wf_distinct)
    fix w assume w: "w \<in> set (sendq (ch sub'))"
    from c show "\<exists>b. running ?s' (fst w) = Some b \<and> b_sub b = q \<and> b_timer b \<noteq> None"
    proof cases
      case 1
      with w show ?thesis by simp
    next
      case 2
      with assms w wf_sendqD [of s q sub' w] show ?thesis
        by (simp add: SubscribeToNotifications_def)
    qed
  qed
  ultimately show ?thesis by (simp add: wf_def)
qed

lemma wf_chanrecv:
  assumes "wf s"
  shows "wf (chanrecv p s)"
proof (cases rule: chanrecv_cases [of s p])
  case none
  with assms show ?thesis by simp
next
  case (plain sub)
  let ?s' = "chanrecv p s"
  have "sendq_ok ?s'"
    unfolding sendq_ok_def
  proof (intro allI impI conjI ballI)
    fix q sub'
    assume h: "heap ?s' q = Some sub'"
    with plain obtain sub0 where s0: "heap s q = Some sub0" "sendq (ch sub') = sendq (ch sub0)"
      by (cases "q = p") auto
    with assms(1) show "distinct (map fst (sendq (ch sub')))"
      using wf_distinct [of s q sub0] by simp
    fix w assume w: "w \<in> set (sendq (ch sub'))"
    with assms(1) s0 plain show "\<exists>b. running ?s' (fst w) = Some b \<and> b_sub b = q \<and> b_timer b \<noteq> None"
      using wf_sendqD [of s q sub0 w] by simp
  qed
  with assms plain show ?thesis
    by - (rule wf_same [of s], simp_all add: shape_def)
next
  case (handoff sub w0 ws)
  let ?s' = "chanrecv p s"
  from wf_distinct [OF assms handoff(1)] handoff have nin: "fst w0 \<notin> fst ` set ws" by simp
  from wf_sendqD [OF assms handoff(1), of w0] handoff obtain b0 where
    b0: "running s (fst w0) = Some b0" "b_sub b0 = p" by auto
  have "sendq_ok ?s'"
    unfolding sendq_ok_def
  proof (intro allI impI conjI ballI)
    fix q sub'
    assume h: "heap ?s' q = Some sub'"
    with handoff obtain sub0 where s0: "heap s q = Some sub0"
      "sendq (ch sub') = (if q = p then ws else sendq (ch sub0))"
      by (cases "q = p") auto
    from s0 handoff wf_distinct [OF assms(1) s0(1)]
    show "distinct (map fst (sendq (ch sub')))"
      by (auto split: if_splits)
    fix w assume w: "w \<in> set (sendq (ch sub'))"
    have w0: "w \<in> set (sendq (ch sub0))"
      using w s0 handoff by (auto split: if_splits)
    then obtain b' where b': "running s (fst w) = Some b'" "b_sub b' = q" "b_timer b' \<noteq> None"
      using wf_sendqD [OF assms(1) s0(1), of w] by auto
    have "fst w \<noteq> fst w0"
    proof
      assume e: "fst w = fst w0"
      with b' b0 have "q = p" by simp
      with s0 w have "w \<in> set ws" by simp
      with e nin show False by (metis imageI)
    qed
    with b' handoff show "\<exists>b. running ?s' (fst w) = Some b \<and> b_sub b = q \<and> b_timer b \<noteq> None"
      by simp
  qed
  with assms handoff show ?thesis
    by - (rule wf_same [of s], simp_all add: shape_def)
qed

lemma wf_detach:
  assumes "wf s"
  shows "wf (detach p s)"
proof (cases "heap s p")
  case None
  with assms show ?thesis by (simp add: detach_def)
next
  case (Some sub)
  let ?s' = "detach p s"
  note eq = detach_eq [OF Some]
  have "reg_ok ?s'"
    unfolding reg_ok_def
  proof (intro allI impI)
    fix u q assume "subscribers ?s' u = Some q"
    with eq have u: "u \<noteq> userId sub" "subscribers s u = Some q" by (auto split: if_splits)
    with assms obtain sub' where s': "heap s q = Some sub'" "userId sub' = u" "\<not> closed (ch sub')"
      using wf_regD by blast
    with u Some have "q \<noteq> p" by auto
    with s' eq show "\<exists>sub. heap ?s' q = Some sub \<and> userId sub = u \<and> \<not> closed (ch sub)" by simp
  qed
  moreover have "heap_ok ?s'"
    using assms Some eq by (auto simp: wf_def heap_ok_def)
  moreover have "sendq_ok ?s'"
    unfolding sendq_ok_def
  proof (intro allI impI conjI ballI)
    fix q sub'
    assume h: "heap ?s' q = Some sub'"
    with eq Some obtain sub0 where s0: "heap s q = Some sub0" "sendq (ch sub') = sendq (ch sub0)"
      by (cases "q = p") auto
    with assms show "distinct (map fst (sendq (ch sub')))"
      using wf_distinct [of s q sub0] by simp
    fix w assume w: "w \<in> set (sendq (ch sub'))"
    with assms s0 eq show "\<exists>b. running ?s' (fst w) = Some b \<and> b_sub b = q \<and> b_timer b \<noteq> None"
      using wf_sendqD [of s q sub0 w] by simp
  qed
  ultimately show ?thesis by (simp add: wf_def)
qed

lemma wf_session_recv: "wf s \<Longrightarrow> wf (session_recv p s)"
  by (cases rule: session_recv_cases [of p s]) (simp_all add: wf_chanrecv)

lemma wf_session_send: "wf s \<Longrightarrow> wf (session_send p ok s)"
  by (cases rule: session_send_cases [of p ok s]) (simp_all add: wf_detach)

lemma wf_session_done: "wf s \<Longrightarrow> wf (session_done p s)"
  by (cases rule: session_done_cases [of p s]) (simp_all add: wf_detach)

lemma wf_step: "wf s \<Longrightarrow> wf (step e s)"
  by (cases e)
     (simp_all add: step_def wf_subscribeToEvents wf_select wf_timeout
                    wf_SubscribeToNotifications wf_session_recv wf_session_send
                    wf_session_done)

lemma wf_run: "wf s \<Longrightarrow> wf (run es s)"
  by (induction es arbitrary: s) (simp_all add: wf_step)

section \<open>Detached sessions\<close>

lemma frame_refl: "frame p s s"
  by (simp add: frame_def)

lemma frame_trans: "frame p s s' \<Longrightarrow> frame p s' s'' \<Longrightarrow> frame p s s''"
  by (auto simp: frame_def)

lemma frame_logs [simp]: "frame p s (s'\<lparr>logs := l\<rparr>) = frame p s s'"
  by (simp add: frame_def)

lemma frame_logs' [simp]: "frame p (s\<lparr>logs := l\<rparr>) s' = frame p s s'"
  by (simp add: frame_def)

lemma detached_frame: "detached p s \<Longrightarrow> frame p s s' \<Longrightarrow> detached p s'"
  by (auto simp: detached_def frame_def)

lemma subscribeToEvents_shape:
  "\<exists>r l. subscribeToEvents m uuid ts s = s\<lparr>running := r, logs := l\<rparr>"
proof -
  have b: "\<exists>r l. broadcast g u n s0 = s0\<lparr>running := r, logs := l\<rparr>" for g u n s0
  proof (cases rule: broadcast_cases [of s0 u g n])
    case none
    then have "broadcast g u n s0 = s0\<lparr>running := running s0, logs := logs s0 @ [NoActiveSubscribers u]\<rparr>"
      by simp
    then show ?thesis by blast
  next
    case (found p)
    then have "broadcast g u n s0 =
      s0\<lparr>running := (running s0)(g \<mapsto> \<lparr>b_userID = u, b_notif = n, b_sub = p, b_timer = None\<rparr>),
         logs := logs s0\<rparr>" by simp
    then show ?thesis by blast
  qed
  have triv: "s = s\<lparr>running := running s, logs := logs s\<rparr>" by simp
  have err: "s\<lparr>logs := k\<rparr> = s\<lparr>running := running s, logs := k\<rparr>" for k by simp
  have viab: "\<exists>r l. broadcast g u n (s\<lparr>logs := k\<rparr>) = s\<lparr>running := r, logs := l\<rparr>" for g u n k
    using b [of g u n "s\<lparr>logs := k\<rparr>"] by auto
  show ?thesis
    unfolding subscribeToEvents_def on_user_created_def on_bill_update_def Let_def
    by (auto split: option.splits handler.splits sum.splits intro: triv err viab
             simp del: surjective)
qed

lemma frame_subscribeToEvents: "frame p s (subscribeToEvents m uuid ts s)"
proof -
  obtain r l where "subscribeToEvents m uuid ts s = s\<lparr>running := r, logs := l\<rparr>"
    using subscribeToEvents_shape by blast
  then show ?thesis by (simp add: frame_def)
qed

lemma frame_chanrecv: "q \<noteq> p \<Longrightarrow> frame p s (chanrecv q s)"
  by (cases rule: chanrecv_cases [of s q]) (simp_all add: frame_def)

lemma frame_detach: "q \<noteq> p \<Longrightarrow> frame p s (detach q s)"
  by (cases "heap s q") (auto simp: detach_def frame_def split: if_splits)

lemma frame_SubscribeToNotifications:
  "p < nextp s \<Longrightarrow> frame p s (SubscribeToNotifications userID s)"
  by (auto simp: SubscribeToNotifications_def frame_def)

lemma frame_select:
  assumes "detached p s" and "\<not> panicked s"
  shows "frame p s (broadcast_select g s)"
proof (cases rule: broadcast_select_cases [of g s])
  case skip
  then show ?thesis by (simp add: frame_refl)
next
  case (panic b sub)
  then show ?thesis by (simp add: frame_def)
next
  case (enqueue b sub)
  with assms have "b_sub b \<noteq> p" by (auto simp: detached_def)
  with enqueue show ?thesis by (simp add: frame_def)
next
  case (block b sub)
  with assms have "b_sub b \<noteq> p" by (auto simp: detached_def)
  with block show ?thesis by (simp add: frame_def)
qed

lemma frame_timeout:
  assumes "detached p s" and "\<not> panicked s"
  shows "frame p s (broadcast_timeout g s)"
proof (cases rule: broadcast_timeout_cases [of g s])
  case skip
  then show ?thesis by (simp add: frame_refl)
next
  case (drop b t sub)
  with assms have "b_sub b \<noteq> p" by (auto simp: detached_def)
  with drop show ?thesis by (simp add: frame_def)
qed

lemma frame_session_recv:
  assumes "detached p s"
  shows "frame p s (session_recv q s)"
proof (cases rule: session_recv_cases [of q s])
  case skip
  then show ?thesis by (simp add: frame_refl)
next
  case (recv sub notif rest)
  with assms have ne: "q \<noteq> p" by (auto simp: detached_def)
  from frame_chanrecv [OF ne, of s] recv ne show ?thesis by (simp add: frame_def)
qed

lemma frame_session_send:
  assumes "detached p s"
  shows "frame p s (session_send q ok s)"
proof (cases rule: session_send_cases [of q ok s])
  case skip
  then show ?thesis by (simp add: frame_refl)
next
  case (sent notif)
  with assms have ne: "q \<noteq> p" by (auto simp: detached_def)
  with sent show ?thesis by (simp add: frame_def)
next
  case (fail notif sub)
  with assms have ne: "q \<noteq> p" by (auto simp: detached_def)
  let ?s0 = "s\<lparr>sending := (sending s)(q := None),
               logs := logs s @ [ErrorSendingToStream (userId sub)]\<rparr>"
  have "frame p s ?s0" using ne by (simp add: frame_def)
  moreover have "frame p ?s0 (session_send q ok s)"
    using frame_detach [OF ne, of ?s0] fail by simp
  ultimately show ?thesis by (rule frame_trans)
qed

lemma frame_session_done:
  assumes "detached p s"
  shows "frame p s (session_done q s)"
proof (cases rule: session_done_cases [of q s])
  case skip
  then show ?thesis by (simp add: frame_refl)
next
  case (exit sub)
  with assms have ne: "q \<noteq> p" by (auto simp: detached_def)
  from frame_detach [OF ne, of "s\<lparr>logs := logs s @ [ClientDisconnected (userId sub)]\<rparr>"] exit
  show ?thesis by simp
qed

lemma frame_step:
  assumes "detached p s"
  shows "frame p s (step e s)"
proof (cases "panicked s")
  case True
  then show ?thesis by (simp add: step_def frame_refl)
next
  case False
  from assms have lt: "p < nextp s" by (simp add: detached_def)
  show ?thesis
  proof (cases e)
    case (Tick d)
    with False show ?thesis by (simp add: step_def frame_def)
  qed (use False assms lt in \<open>simp_all add: step_def frame_subscribeToEvents frame_select
         frame_timeout frame_SubscribeToNotifications frame_session_recv frame_session_send
         frame_session_done\<close>)
qed

lemma detached_run:
  "detached p s \<Longrightarrow> detached p (run es s) \<and> frame p s (run es s)"
proof (induction es arbitrary: s)
  case Nil
  then show ?case by (simp add: frame_refl)
next
  case (Cons e es)
  from Cons.prems have f: "frame p s (step e s)" by (rule frame_step)
  with Cons.prems have d: "detached p (step e s)" by (rule detached_frame)
  from Cons.IH [OF d] f show ?case by (auto intro: frame_trans)
qed

text \<open>The deferred function leaves the session detached.\<close>

lemma detach_detached:
  assumes "wf s" and "heap s p = Some sub" and "sending s p = None"
  shows "detached p (detach p s)"
    and "subscribers (detach p s) (userId sub) = None"
    and "logs (detach p s) = logs s @ [SubscriberDisconnected (userId sub)]"
    and "heap (detach p s) p = Some (sub\<lparr>ch := (ch sub)\<lparr>closed := True\<rparr>\<rparr>)"
proof -
  note eq = detach_eq [OF assms(2)]
  from eq show "subscribers (detach p s) (userId sub) = None"
    and "logs (detach p s) = logs s @ [SubscriberDisconnected (userId sub)]"
    and h: "heap (detach p s) p = Some (sub\<lparr>ch := (ch sub)\<lparr>closed := True\<rparr>\<rparr>)"
    by simp_all
  have "subscribers (detach p s) u \<noteq> Some p" for u
  proof
    assume a: "subscribers (detach p s) u = Some p"
    with eq have u: "u \<noteq> userId sub" "subscribers s u = Some p" by (auto split: if_splits)
    with assms wf_regD [of s u p] show False by auto
  qed
  moreover from assms(1,2) have "p < nextp s" by (rule wf_heapD)
  moreover from eq have "nextp (detach p s) = nextp s"
    "panicked (detach p s) = (panicked s \<or> sendq (ch sub) \<noteq> [])" by simp_all
  moreover from eq assms(3) have "sending (detach p s) p = None" by simp
  ultimately show "detached p (detach p s)"
    using h by (auto simp: detached_def)
qed

lemma detached_terminal:
  "detached p s \<Longrightarrow> session_done p s = s \<and> session_recv p s = s \<and> session_send p ok s = s"
  by (auto simp: detached_def session_done_def session_recv_def session_send_def
           split: list.splits)

section \<open>Routing\<close>

lemma routed_init: "routed init"
  by (simp add: routed_def init_def)

lemma routed_logs [simp]: "routed (s\<lparr>logs := l\<rparr>) = routed s"
  by (simp add: routed_def)

lemma routed_now [simp]: "routed (s\<lparr>now := l\<rparr>) = routed s"
  by (simp add: routed_def)

lemma routed_panicked [simp]: "routed (s\<lparr>panicked := l\<rparr>) = routed s"
  by (simp add: routed_def)

lemma routed_runD:
  "routed s \<Longrightarrow> running s g = Some b \<Longrightarrow>
   UserId (b_notif b) = b_userID b \<and> (\<exists>sub. heap s (b_sub b) = Some sub \<and> userId sub = b_userID b)"
  by (simp add: routed_def)

lemma routed_bufD:
  "routed s \<Longrightarrow> heap s p = Some sub \<Longrightarrow> n \<in> set (buf (ch sub)) \<Longrightarrow> UserId n = userId sub"
  by (auto simp: routed_def)

lemma routed_sendqD:
  "routed s \<Longrightarrow> heap s p = Some sub \<Longrightarrow> w \<in> set (sendq (ch sub)) \<Longrightarrow>
   UserId (snd (snd w)) = userId sub"
  by (auto simp: routed_def)

lemma routed_sendingD:
  "routed s \<Longrightarrow> sending s p = Some n \<Longrightarrow> \<exists>sub. heap s p = Some sub \<and> UserId n = userId sub"
  by (simp add: routed_def)

lemma routed_sentD:
  "routed s \<Longrightarrow> x \<in> set (sent s) \<Longrightarrow> \<exists>sub. heap s (fst x) = Some sub \<and> UserId (snd x) = userId sub"
  by (auto simp: routed_def)

text \<open>
  A step that changes the heap at one address only, keeps the user id there, and puts into
  the buffer and the queue there only notifications for that user id, keeps the routing.
\<close>

lemma routed_heap_upd:
  assumes r: "routed s" and h: "heap s p = Some sub" and h': "heap s' = (heap s)(p \<mapsto> sub')"
    and u: "userId sub' = userId sub"
    and b: "\<And>n. n \<in> set (buf (ch sub')) \<Longrightarrow> UserId n = userId sub"
    and q: "\<And>w. w \<in> set (sendq (ch sub')) \<Longrightarrow> UserId (snd (snd w)) = userId sub"
    and run: "\<And>g b. running s' g = Some b \<Longrightarrow>
               UserId (b_notif b) = b_userID b \<and> (\<exists>sub. heap s (b_sub b) = Some sub \<and> userId sub = b_userID b)"
    and snt: "\<And>x. x \<in> set (sent s') \<Longrightarrow> \<exists>sub. heap s (fst x) = Some sub \<and> UserId (snd x) = userId sub"
    and sg: "sending s' = sending s"
  shows "routed s'"
  unfolding routed_def
proof (intro conjI allI impI ballI)
  fix g b assume "running s' g = Some b"
  from run [OF this] show "UserId (b_notif b) = b_userID b" by simp
  from run [OF \<open>running s' g = Some b\<close>] obtain sub0 where
    "heap s (b_sub b) = Some sub0" "userId sub0 = b_userID b" by auto
  with h h' u show "\<exists>sub. heap s' (b_sub b) = Some sub \<and> userId sub = b_userID b"
    by (cases "b_sub b = p") auto
next
  fix q0 sub0 n assume "heap s' q0 = Some sub0" "n \<in> set (buf (ch sub0))"
  with h h' u b routed_bufD [OF r] show "UserId n = userId sub0"
    by (cases "q0 = p") auto
next
  fix q0 sub0 w assume "heap s' q0 = Some sub0" "w \<in> set (sendq (ch sub0))"
  with h h' u q routed_sendqD [OF r] show "UserId (snd (snd w)) = userId sub0"
    by (cases "q0 = p") auto
next
  fix q0 n assume "sending s' q0 = Some n"
  with sg routed_sendingD [OF r, of q0 n] obtain sub0 where
    "heap s q0 = Some sub0" "UserId n = userId sub0" by auto
  with h h' u show "\<exists>sub. heap s' q0 = Some sub \<and> UserId n = userId sub"
    by (cases "q0 = p") auto
next
  fix x assume "x \<in> set (sent s')"
  from snt [OF this] obtain sub0 where "heap s (fst x) = Some sub0" "UserId (snd x) = userId sub0"
    by auto
  with h h' u show "\<exists>sub. heap s' (fst x) = Some sub \<and> UserId (snd x) = userId sub"
    by (cases "fst x = p") auto
qed

lemma routed_broadcast:
  assumes "routed s" and "wf s" and "UserId n = u"
  shows "routed (broadcast g u n s)"
proof (cases rule: broadcast_cases [of s u g n])
  case none
  with assms show ?thesis by simp
next
  case (found p)
  from wf_regD [OF assms(2) found(1)] obtain sub where
    sub: "heap s p = Some sub" "userId sub = u" by auto
  show ?thesis
    unfolding routed_def
  proof (intro conjI allI impI ballI)
    fix g' b assume a: "running (broadcast g u n s) g' = Some b"
    show "UserId (b_notif b) = b_userID b"
      using a found assms routed_runD [of s g' b] by (cases "g' = g") auto
    show "\<exists>sub. heap (broadcast g u n s) (b_sub b) = Some sub \<and> userId sub = b_userID b"
      using a found assms sub routed_runD [of s g' b] by (cases "g' = g") auto
  next
    fix q0 sub0 n0 assume "heap (broadcast g u n s) q0 = Some sub0" "n0 \<in> set (buf (ch sub0))"
    with found routed_bufD [OF assms(1)] show "UserId n0 = userId sub0" by simp
  next
    fix q0 sub0 w assume "heap (broadcast g u n s) q0 = Some sub0" "w \<in> set (sendq (ch sub0))"
    with found routed_sendqD [OF assms(1)] show "UserId (snd (snd w)) = userId sub0" by simp
  next
    fix q0 n0 assume "sending (broadcast g u n s) q0 = Some n0"
    with found routed_sendingD [OF assms(1), of q0 n0]
    show "\<exists>sub. heap (broadcast g u n s) q0 = Some sub \<and> UserId n0 = userId sub" by simp
  next
    fix x assume "x \<in> set (sent (broadcast g u n s))"
    with found routed_sentD [OF assms(1), of x]
    show "\<exists>sub. heap (broadcast g u n s) (fst x) = Some sub \<and> UserId (snd x) = userId sub" by simp
  qed
qed

lemma routed_subscribeToEvents:
  "routed s \<Longrightarrow> wf s \<Longrightarrow> routed (subscribeToEvents m uuid ts s)"
  by (auto simp: subscribeToEvents_def on_user_created_def on_bill_update_def Let_def
                 user_created_notif_def bill_update_notif_def
           intro!: routed_broadcast split: option.splits handler.splits sum.splits)

lemma routed_select:
  assumes "routed s"
  shows "routed (broadcast_select g s)"
proof (cases rule: broadcast_select_cases [of g s])
  case skip
  with assms show ?thesis by simp
next
  case (panic b sub)
  with assms show ?thesis by simp
next
  case (enqueue b sub)
  from routed_runD [OF assms enqueue(1)] enqueue(3)
  have ub: "UserId (b_notif b) = userId sub" by auto
  have "routed (s\<lparr>heap := (heap s)(b_sub b \<mapsto> sub\<lparr>ch := (ch sub)\<lparr>buf := buf (ch sub) @ [b_notif b]\<rparr>\<rparr>),
             running := (running s)(g := None)\<rparr>)"
  proof (rule routed_heap_upd [OF assms enqueue(3)])
    fix n assume "n \<in> set (buf (ch (sub\<lparr>ch := (ch sub)\<lparr>buf := buf (ch sub) @ [b_notif b]\<rparr>\<rparr>)))"
    with ub routed_bufD [OF assms enqueue(3)] show "UserId n = userId sub" by auto
  next
    fix w assume "w \<in> set (sendq (ch (sub\<lparr>ch := (ch sub)\<lparr>buf := buf (ch sub) @ [b_notif b]\<rparr>\<rparr>)))"
    with routed_sendqD [OF assms enqueue(3), of w] show "UserId (snd (snd w)) = userId sub" by auto
  next
    fix g' b' assume "running (s\<lparr>heap := (heap s)(b_sub b \<mapsto> sub\<lparr>ch := (ch sub)\<lparr>buf := buf (ch sub) @ [b_notif b]\<rparr>\<rparr>),
             running := (running s)(g := None)\<rparr>) g' = Some b'"
    then have "running s g' = Some b'" by (simp split: if_splits)
    from routed_runD [OF assms this]
    show "UserId (b_notif b') = b_userID b' \<and> (\<exists>sub. heap s (b_sub b') = Some sub \<and> userId sub = b_userID b')" .
  next
    fix x assume "x \<in> set (sent (s\<lparr>heap := (heap s)(b_sub b \<mapsto> sub\<lparr>ch := (ch sub)\<lparr>buf := buf (ch sub) @ [b_notif b]\<rparr>\<rparr>),
             running := (running s)(g := None)\<rparr>))"
    with routed_sentD [OF assms, of x]
    show "\<exists>sub. heap s (fst x) = Some sub \<and> UserId (snd x) = userId sub" by simp
  qed simp_all
  with enqueue show ?thesis by simp
next
  case (block b sub)
  from routed_runD [OF assms block(1)] block(3)
  have ub: "UserId (b_notif b) = userId sub" "UserId (b_notif b) = b_userID b" by auto
  let ?s' = "s\<lparr>heap := (heap s)(b_sub b \<mapsto>
                      sub\<lparr>ch := (ch sub)\<lparr>sendq := sendq (ch sub) @ [(g, b_userID b, b_notif b)]\<rparr>\<rparr>),
             running := (running s)(g \<mapsto> b\<lparr>b_timer := Some (now s + 1 * Second)\<rparr>)\<rparr>"
  have "routed ?s'"
  proof (rule routed_heap_upd [OF assms block(3)])
    fix n assume "n \<in> set (buf (ch (sub\<lparr>ch := (ch sub)\<lparr>sendq := sendq (ch sub) @ [(g, b_userID b, b_notif b)]\<rparr>\<rparr>)))"
    with routed_bufD [OF assms block(3)] show "UserId n = userId sub" by auto
  next
    fix w assume "w \<in> set (sendq (ch (sub\<lparr>ch := (ch sub)\<lparr>sendq := sendq (ch sub) @ [(g, b_userID b, b_notif b)]\<rparr>\<rparr>)))"
    with ub routed_sendqD [OF assms block(3), of w] show "UserId (snd (snd w)) = userId sub" by auto
  next
    fix g' b' assume a: "running ?s' g' = Some b'"
    show "UserId (b_notif b') = b_userID b' \<and> (\<exists>sub. heap s (b_sub b') = Some sub \<and> userId sub = b_userID b')"
    proof (cases "g' = g")
      case True
      with a have "b' = b\<lparr>b_timer := Some (now s + 1 * Second)\<rparr>" by simp
      with routed_runD [OF assms block(1)] show ?thesis by simp
    next
      case False
      with a have "running s g' = Some b'" by simp
      from routed_runD [OF assms this] show ?thesis .
    qed
  next
    fix x assume "x \<in> set (sent ?s')"
    with routed_sentD [OF assms, of x]
    show "\<exists>sub. heap s (fst x) = Some sub \<and> UserId (snd x) = userId sub" by simp
  qed simp_all
  with block show ?thesis by simp
qed

lemma set_tl_in: "x \<in> set (tl xs) \<Longrightarrow> x \<in> set xs"
  by (cases xs) auto

lemma routed_timeout:
  assumes "routed s"
  shows "routed (broadcast_timeout g s)"
proof (cases rule: broadcast_timeout_cases [of g s])
  case skip
  with assms show ?thesis by simp
next
  case (drop b t sub)
  let ?sub' = "sub\<lparr>ch := (ch sub)\<lparr>sendq := filter (\<lambda>w. fst w \<noteq> g) (sendq (ch sub))\<rparr>\<rparr>"
  let ?s' = "s\<lparr>heap := (heap s)(b_sub b \<mapsto> ?sub'), running := (running s)(g := None)\<rparr>"
  have "routed ?s'"
  proof (rule routed_heap_upd [OF assms drop(3)])
    fix n assume "n \<in> set (buf (ch ?sub'))"
    with routed_bufD [OF assms drop(3)] show "UserId n = userId sub" by auto
  next
    fix w assume "w \<in> set (sendq (ch ?sub'))"
    with routed_sendqD [OF assms drop(3), of w] show "UserId (snd (snd w)) = userId sub" by auto
  next
    fix g' b' assume "running ?s' g' = Some b'"
    then have "running s g' = Some b'" by (simp split: if_splits)
    from routed_runD [OF assms this]
    show "UserId (b_notif b') = b_userID b' \<and> (\<exists>sub. heap s (b_sub b') = Some sub \<and> userId sub = b_userID b')" .
  next
    fix x assume "x \<in> set (sent ?s')"
    with routed_sentD [OF assms, of x]
    show "\<exists>sub. heap s (fst x) = Some sub \<and> UserId (snd x) = userId sub" by simp
  qed simp_all
  with drop show ?thesis by simp
qed

lemma routed_chanrecv:
  assumes "routed s"
  shows "routed (chanrecv p s)"
proof (cases rule: chanrecv_cases [of s p])
  case none
  with assms show ?thesis by simp
next
  case (plain sub)
  let ?sub' = "sub\<lparr>ch := (ch sub)\<lparr>buf := tl (buf (ch sub))\<rparr>\<rparr>"
  let ?s' = "s\<lparr>heap := (heap s)(p \<mapsto> ?sub')\<rparr>"
  have "routed ?s'"
  proof (rule routed_heap_upd [OF assms plain(1)])
    fix n assume "n \<in> set (buf (ch ?sub'))"
    then have "n \<in> set (buf (ch sub))" by (auto dest: set_tl_in)
    with routed_bufD [OF assms plain(1)] show "UserId n = userId sub" by auto
  next
    fix w assume "w \<in> set (sendq (ch ?sub'))"
    with routed_sendqD [OF assms plain(1), of w] show "UserId (snd (snd w)) = userId sub" by auto
  next
    fix g' b' assume "running ?s' g' = Some b'"
    then have "running s g' = Some b'" by simp
    from routed_runD [OF assms this]
    show "UserId (b_notif b') = b_userID b' \<and> (\<exists>sub. heap s (b_sub b') = Some sub \<and> userId sub = b_userID b')" .
  next
    fix x assume "x \<in> set (sent ?s')"
    with routed_sentD [OF assms, of x]
    show "\<exists>sub. heap s (fst x) = Some sub \<and> UserId (snd x) = userId sub" by simp
  qed simp_all
  with plain show ?thesis by simp
next
  case (handoff sub w0 ws)
  let ?sub' = "sub\<lparr>ch := (ch sub)\<lparr>buf := tl (buf (ch sub)) @ [snd (snd w0)], sendq := ws\<rparr>\<rparr>"
  let ?s' = "s\<lparr>heap := (heap s)(p \<mapsto> ?sub'), running := (running s)(fst w0 := None)\<rparr>"
  from routed_sendqD [OF assms handoff(1), of w0] handoff(2)
  have u0: "UserId (snd (snd w0)) = userId sub" by simp
  have "routed ?s'"
  proof (rule routed_heap_upd [OF assms handoff(1)])
    fix n assume "n \<in> set (buf (ch ?sub'))"
    then have "n \<in> set (buf (ch sub)) \<or> n = snd (snd w0)"
      by (auto dest: set_tl_in)
    with u0 routed_bufD [OF assms handoff(1)] show "UserId n = userId sub" by auto
  next
    fix w assume "w \<in> set (sendq (ch ?sub'))"
    with handoff(2) routed_sendqD [OF assms handoff(1), of w] show "UserId (snd (snd w)) = userId sub"
      by auto
  next
    fix g' b' assume "running ?s' g' = Some b'"
    then have "running s g' = Some b'" by (simp split: if_splits)
    from routed_runD [OF assms this]
    show "UserId (b_notif b') = b_userID b' \<and> (\<exists>sub. heap s (b_sub b') = Some sub \<and> userId sub = b_userID b')" .
  next
    fix x assume "x \<in> set (sent ?s')"
    with routed_sentD [OF assms, of x]
    show "\<exists>sub. heap s (fst x) = Some sub \<and> UserId (snd x) = userId sub" by simp
  qed simp_all
  with handoff show ?thesis by simp
qed

lemma routed_detach:
  assumes "routed s"
  shows "routed (detach p s)"
proof (cases "heap s p")
  case None
  with assms show ?thesis by (simp add: detach_def)
next
  case (Some sub)
  let ?sub' = "sub\<lparr>ch := (ch sub)\<lparr>closed := True\<rparr>\<rparr>"
  let ?s' = "s\<lparr>subscribers := (subscribers s)(userId sub := None), heap := (heap s)(p \<mapsto> ?sub'),
              panicked := (panicked s \<or> sendq (ch sub) \<noteq> [])\<rparr>"
  have "routed ?s'"
  proof (rule routed_heap_upd [OF assms Some])
    fix n assume "n \<in> set (buf (ch ?sub'))"
    with routed_bufD [OF assms Some] show "UserId n = userId sub" by auto
  next
    fix w assume "w \<in> set (sendq (ch ?sub'))"
    with routed_sendqD [OF assms Some, of w] show "UserId (snd (snd w)) = userId sub" by auto
  next
    fix g' b' assume "running ?s' g' = Some b'"
    then have "running s g' = Some b'" by simp
    from routed_runD [OF assms this]
    show "UserId (b_notif b') = b_userID b' \<and> (\<exists>sub. heap s (b_sub b') = Some sub \<and> userId sub = b_userID b')" .
  next
    fix x assume "x \<in> set (sent ?s')"
    with routed_sentD [OF assms, of x]
    show "\<exists>sub. heap s (fst x) = Some sub \<and> UserId (snd x) = userId sub" by simp
  qed simp_all
  with Some show ?thesis by (simp add: detach_eq)
qed

lemma routed_SubscribeToNotifications:
  assumes "routed s" and "wf s"
  shows "routed (SubscribeToNotifications userID s)"
proof -
  let ?s' = "SubscribeToNotifications userID s"
  have fresh: "heap s (nextp s) = None"
    using assms(2) by (simp add: wf_def heap_ok_def)
  have keep: "heap ?s' q = Some sub" if "heap s q = Some sub" for q sub
    using that fresh by (auto simp: SubscribeToNotifications_def)
  show ?thesis
    unfolding routed_def
  proof (intro conjI allI impI ballI)
    fix g b assume "running ?s' g = Some b"
    then have r: "running s g = Some b" by (simp add: SubscribeToNotifications_def)
    from routed_runD [OF assms(1) r] show "UserId (b_notif b) = b_userID b" by simp
    from routed_runD [OF assms(1) r] keep
    show "\<exists>sub. heap ?s' (b_sub b) = Some sub \<and> userId sub = b_userID b" by blast
  next
    fix q sub n assume "heap ?s' q = Some sub" "n \<in> set (buf (ch sub))"
    with routed_bufD [OF assms(1), of q sub n] show "UserId n = userId sub"
      by (auto simp: SubscribeToNotifications_def split: if_splits)
  next
    fix q sub w assume "heap ?s' q = Some sub" "w \<in> set (sendq (ch sub))"
    with routed_sendqD [OF assms(1), of q sub w] show "UserId (snd (snd w)) = userId sub"
      by (auto simp: SubscribeToNotifications_def split: if_splits)
  next
    fix q n assume "sending ?s' q = Some n"
    then have "sending s q = Some n" by (simp add: SubscribeToNotifications_def)
    from routed_sendingD [OF assms(1) this] keep
    show "\<exists>sub. heap ?s' q = Some sub \<and> UserId n = userId sub" by blast
  next
    fix x assume "x \<in> set (sent ?s')"
    then have "x \<in> set (sent s)" by (simp add: SubscribeToNotifications_def)
    from routed_sentD [OF assms(1) this] keep
    show "\<exists>sub. heap ?s' (fst x) = Some sub \<and> UserId (snd x) = userId sub" by blast
  qed
qed

lemma chanrecv_keeps:
  assumes "heap s p = Some sub"
  shows "\<exists>sub'. heap (chanrecv p s) p = Some sub' \<and> userId sub' = userId sub
           \<and> closed (ch sub') = closed (ch sub)"
  using assms by (cases rule: chanrecv_cases [of s p]) auto

lemma sent_chanrecv [simp]: "sent (chanrecv p s) = sent s"
  by (cases rule: chanrecv_cases [of s p]) auto

lemma sending_chanrecv [simp]: "sending (chanrecv p s) = sending s"
  by (cases rule: chanrecv_cases [of s p]) auto

text \<open>A session may take up a notification for the user id of its subscriber, or lay one down.\<close>

lemma routed_sending_upd:
  assumes r: "routed s"
    and v: "\<And>n. v = Some n \<Longrightarrow> \<exists>sub. heap s p = Some sub \<and> UserId n = userId sub"
  shows "routed (s\<lparr>sending := (sending s)(p := v)\<rparr>)"
  unfolding routed_def
proof (intro conjI allI impI ballI)
  fix g b assume "running (s\<lparr>sending := (sending s)(p := v)\<rparr>) g = Some b"
  then have "running s g = Some b" by simp
  from routed_runD [OF r this] show "UserId (b_notif b) = b_userID b"
    and "\<exists>sub. heap (s\<lparr>sending := (sending s)(p := v)\<rparr>) (b_sub b) = Some sub \<and> userId sub = b_userID b"
    by simp_all
next
  fix q sub n assume "heap (s\<lparr>sending := (sending s)(p := v)\<rparr>) q = Some sub" "n \<in> set (buf (ch sub))"
  with routed_bufD [OF r, of q sub n] show "UserId n = userId sub" by simp
next
  fix q sub w assume "heap (s\<lparr>sending := (sending s)(p := v)\<rparr>) q = Some sub" "w \<in> set (sendq (ch sub))"
  with routed_sendqD [OF r, of q sub w] show "UserId (snd (snd w)) = userId sub" by simp
next
  fix q n assume a: "sending (s\<lparr>sending := (sending s)(p := v)\<rparr>) q = Some n"
  show "\<exists>sub. heap (s\<lparr>sending := (sending s)(p := v)\<rparr>) q = Some sub \<and> UserId n = userId sub"
  proof (cases "q = p")
    case True
    with a v [of n] show ?thesis by simp
  next
    case False
    with a routed_sendingD [OF r, of q n] show ?thesis by simp
  qed
next
  fix x assume "x \<in> set (sent (s\<lparr>sending := (sending s)(p := v)\<rparr>))"
  with routed_sentD [OF r, of x]
  show "\<exists>sub. heap (s\<lparr>sending := (sending s)(p := v)\<rparr>) (fst x) = Some sub \<and> UserId (snd x) = userId sub"
    by simp
qed

text \<open>A stream may send a notification for the user id of its subscriber.\<close>

lemma routed_sent_upd:
  assumes r: "routed s" and h: "heap s p = Some sub" and u: "UserId n = userId sub"
  shows "routed (s\<lparr>sent := sent s @ [(p, n)]\<rparr>)"
  unfolding routed_def
proof (intro conjI allI impI ballI)
  fix g b assume "running (s\<lparr>sent := sent s @ [(p, n)]\<rparr>) g = Some b"
  then have "running s g = Some b" by simp
  from routed_runD [OF r this] show "UserId (b_notif b) = b_userID b"
    and "\<exists>sub. heap (s\<lparr>sent := sent s @ [(p, n)]\<rparr>) (b_sub b) = Some sub \<and> userId sub = b_userID b"
    by simp_all
next
  fix q sub0 n0 assume "heap (s\<lparr>sent := sent s @ [(p, n)]\<rparr>) q = Some sub0" "n0 \<in> set (buf (ch sub0))"
  with routed_bufD [OF r, of q sub0 n0] show "UserId n0 = userId sub0" by simp
next
  fix q sub0 w assume "heap (s\<lparr>sent := sent s @ [(p, n)]\<rparr>) q = Some sub0" "w \<in> set (sendq (ch sub0))"
  with routed_sendqD [OF r, of q sub0 w] show "UserId (snd (snd w)) = userId sub0" by simp
next
  fix q n0 assume "sending (s\<lparr>sent := sent s @ [(p, n)]\<rparr>) q = Some n0"
  with routed_sendingD [OF r, of q n0]
  show "\<exists>sub. heap (s\<lparr>sent := sent s @ [(p, n)]\<rparr>) q = Some sub \<and> UserId n0 = userId sub" by simp
next
  fix x assume "x \<in> set (sent (s\<lparr>sent := sent s @ [(p, n)]\<rparr>))"
  then consider "x \<in> set (sent s)" | "x = (p, n)" by auto
  then show "\<exists>sub. heap (s\<lparr>sent := sent s @ [(p, n)]\<rparr>) (fst x) = Some sub \<and> UserId (snd x) = userId sub"
  proof cases
    case 1
    from routed_sentD [OF r this] show ?thesis by simp
  next
    case 2
    with h u show ?thesis by simp
  qed
qed

lemma routed_session_recv:
  assumes "routed s"
  shows "routed (session_recv p s)"
proof (cases rule: session_recv_cases [of p s])
  case skip
  with assms show ?thesis by simp
next
  case (recv sub notif rest)
  let ?c = "chanrecv p s"
  have rc: "routed ?c" using assms by (rule routed_chanrecv)
  from chanrecv_keeps [OF recv(1)] obtain sub' where
    sub': "heap ?c p = Some sub'" "userId sub' = userId sub" by auto
  from routed_bufD [OF assms recv(1), of notif] recv(2) have un: "UserId notif = userId sub" by simp
  have "routed (?c\<lparr>sending := (sending ?c)(p := Some notif)\<rparr>)"
    using rc sub' un by (intro routed_sending_upd) simp_all
  with recv show ?thesis by simp
qed

lemma routed_session_send:
  assumes "routed s"
  shows "routed (session_send p ok s)"
proof (cases rule: session_send_cases [of p ok s])
  case skip
  with assms show ?thesis by simp
next
  case (sent notif)
  from routed_sendingD [OF assms sent(1)] obtain sub where
    sub: "heap s p = Some sub" "UserId notif = userId sub" by auto
  let ?s0 = "s\<lparr>sending := (sending s)(p := None)\<rparr>"
  have "routed ?s0" using assms by (intro routed_sending_upd) simp_all
  then have "routed (?s0\<lparr>sent := sent ?s0 @ [(p, notif)]\<rparr>)"
    using sub by (intro routed_sent_upd [of _ _ sub]) simp_all
  with sent show ?thesis by simp
next
  case (fail notif sub)
  let ?s0 = "s\<lparr>sending := (sending s)(p := None)\<rparr>"
  have "routed ?s0" using assms by (intro routed_sending_upd) simp_all
  then have "routed (detach p (?s0\<lparr>logs := logs s @ [ErrorSendingToStream (userId sub)]\<rparr>))"
    by (simp add: routed_detach)
  with fail show ?thesis by simp
qed

lemma routed_session_done: "routed s \<Longrightarrow> routed (session_done p s)"
  by (cases rule: session_done_cases [of p s]) (simp_all add: routed_detach)

lemma routed_step: "routed s \<Longrightarrow> wf s \<Longrightarrow> routed (step e s)"
  by (cases e)
     (simp_all add: step_def routed_subscribeToEvents routed_select routed_timeout
                    routed_SubscribeToNotifications routed_session_recv routed_session_send
                    routed_session_done)

lemma routed_run: "routed s \<Longrightarrow> wf s \<Longrightarrow> routed (run es s)"
  by (induction es arbitrary: s) (simp_all add: routed_step wf_step)

section \<open>Calls of broadcast in progress\<close>

subsection \<open>What a step does to the call of another goroutine\<close>

lemma running_broadcast_other: "g' \<noteq> g \<Longrightarrow> running (broadcast g' u n s) g = running s g"
  by (cases rule: broadcast_cases [of s u g' n]) simp_all

lemma running_subscribeToEvents:
  assumes "running s g \<noteq> None"
  shows "running (subscribeToEvents m uuid ts s) g = running s g"
proof (cases "subscription (Subject m)")
  case None
  then show ?thesis by (simp add: subscribeToEvents_def)
next
  case (Some g')
  show ?thesis
  proof (cases "running s g' = None")
    case False
    with Some show ?thesis by (simp add: subscribeToEvents_def)
  next
    case True
    with assms have ne: "g' \<noteq> g" by auto
    from subscribeToEvents_decode [OF Some True, of uuid ts] ne show ?thesis
      by (auto simp: running_broadcast_other split: option.splits)
  qed
qed

lemma running_select_other: "g' \<noteq> g \<Longrightarrow> running (broadcast_select g' s) g = running s g"
  by (cases rule: broadcast_select_cases [of g' s]) simp_all

lemma running_timeout_other: "g' \<noteq> g \<Longrightarrow> running (broadcast_timeout g' s) g = running s g"
  by (cases rule: broadcast_timeout_cases [of g' s]) simp_all

lemma running_detach [simp]: "running (detach p s) = running s"
  by (simp add: detach_def split: option.splits)

lemma running_chanrecv:
  assumes "\<And>sub. heap s q = Some sub \<Longrightarrow> g \<notin> fst ` set (sendq (ch sub))"
  shows "running (chanrecv q s) g = running s g"
proof (cases rule: chanrecv_cases [of s q])
  case none
  then show ?thesis by simp
next
  case (plain sub)
  then show ?thesis by simp
next
  case (handoff sub w ws)
  with assms [of sub] have "fst w \<noteq> g" by auto
  with handoff show ?thesis by simp
qed

lemma running_session_recv:
  assumes "\<And>sub. heap s q = Some sub \<Longrightarrow> g \<notin> fst ` set (sendq (ch sub))"
  shows "running (session_recv q s) g = running s g"
  using running_chanrecv [of s q g, OF assms]
  by (cases rule: session_recv_cases [of q s]) simp_all

lemma running_session_send [simp]: "running (session_send q ok s) = running s"
  by (cases rule: session_send_cases [of q ok s]) simp_all

lemma running_session_done [simp]: "running (session_done q s) = running s"
  by (cases rule: session_done_cases [of q s]) simp_all

text \<open>
  Between the lookup and the select, no step of another goroutine touches the call: its
  arguments and the pointer it has read stay as they are.
\<close>

lemma looked_step:
  assumes "wf s" and "running s g = Some b" and "b_timer b = None" and "e \<noteq> SelectEnter g"
  shows "running (step e s) g = Some b"
proof (cases "panicked s")
  case True
  with assms show ?thesis by (simp add: step_def)
next
  case False
  have nq: "g \<notin> fst ` set (sendq (ch sub))" if "heap s q = Some sub" for q sub
    using wf_not_queued [OF assms(1,2,3) that] .
  show ?thesis
  proof (cases e)
    case (NatsMsg m uuid ts)
    with False assms running_subscribeToEvents [of s g m uuid ts] show ?thesis
      by (simp add: step_def)
  next
    case (SelectEnter g')
    with assms have "g' \<noteq> g" by auto
    with SelectEnter False assms show ?thesis by (simp add: step_def running_select_other)
  next
    case (TimerFires g')
    show ?thesis
    proof (cases "g' = g")
      case True
      with assms have "broadcast_timeout g' s = s" by (simp add: broadcast_timeout_def)
      with TimerFires False assms show ?thesis by (simp add: step_def)
    next
      case False
      with TimerFires \<open>\<not> panicked s\<close> assms show ?thesis
        by (simp add: step_def running_timeout_other)
    qed
  next
    case (OpenStream userID)
    with False assms show ?thesis by (simp add: step_def SubscribeToNotifications_def)
  next
    case (ChanRecv q)
    with False assms running_session_recv [of s q g] nq show ?thesis
      by (simp add: step_def)
  next
    case (StreamSend q ok)
    with False assms show ?thesis by (simp add: step_def)
  next
    case (CtxDone q)
    with False assms show ?thesis by (simp add: step_def)
  next
    case (Tick d)
    with False assms show ?thesis by (simp add: step_def)
  qed
qed

lemma looked_run:
  assumes "wf s" and "running s g = Some b" and "b_timer b = None"
    and "\<forall>e \<in> set es. e \<noteq> SelectEnter g"
  shows "running (run es s) g = Some b"
  using assms
proof (induction es arbitrary: s)
  case Nil
  then show ?case by simp
next
  case (Cons e es)
  from Cons.prems have "running (step e s) g = Some b" by (simp add: looked_step)
  moreover from Cons.prems have "wf (step e s)" by (simp add: wf_step)
  ultimately show ?case using Cons.IH [of "step e s"] Cons.prems by simp
qed

subsection \<open>A blocked call stays blocked while its receiver is idle\<close>

lemma blocked_same:
  "blocked g b B s \<Longrightarrow> running s' g = running s g \<Longrightarrow> heap s' (b_sub b) = heap s (b_sub b) \<Longrightarrow>
   blocked g b B s'"
  by (simp add: blocked_def)

lemma heap_frame: "frame p s s' \<Longrightarrow> heap s' p = heap s p"
  by (simp add: frame_def)

lemma blocked_step:
  assumes w: "wf s" and bl: "blocked g b B s" and q: "quiet (b_sub b) g e"
  shows "blocked g b B (step e s)"
proof (cases "panicked s")
  case True
  with bl show ?thesis by (simp add: step_def)
next
  case np: False
  from bl obtain sub where r: "running s g = Some b" and t: "b_timer b \<noteq> None"
    and h: "heap s (b_sub b) = Some sub" and B: "buf (ch sub) = B" "cap (ch sub) \<le> length B"
    and op: "\<not> closed (ch sub)" and gq: "g \<in> fst ` set (sendq (ch sub))"
    by (auto simp: blocked_def)
  have nq: "g \<notin> fst ` set (sendq (ch sub'))" if "heap s q' = Some sub'" "q' \<noteq> b_sub b" for q' sub'
    using wf_queued_here [OF w r that(1)] that(2) by auto
  show ?thesis
  proof (cases e)
    case (NatsMsg m uuid ts)
    obtain r' l where "subscribeToEvents m uuid ts s = s\<lparr>running := r', logs := l\<rparr>"
      using subscribeToEvents_shape by blast
    then have "heap (subscribeToEvents m uuid ts s) = heap s" by simp
    with NatsMsg np bl r running_subscribeToEvents [of s g m uuid ts] show ?thesis
      by (simp add: step_def blocked_same)
  next
    case (SelectEnter g')
    have "blocked g b B (broadcast_select g' s)"
    proof (cases rule: broadcast_select_cases [of g' s])
      case skip
      with bl show ?thesis by simp
    next
      case (panic b' sub')
      with bl show ?thesis by (simp add: blocked_def)
    next
      case (enqueue b' sub')
      with r t have ne: "g' \<noteq> g" by auto
      from enqueue h B have "b_sub b' \<noteq> b_sub b" by auto
      with enqueue ne bl show ?thesis by (simp add: blocked_def)
    next
      case (block b' sub')
      with r t have ne: "g' \<noteq> g" by auto
      show ?thesis
      proof (cases "b_sub b' = b_sub b")
        case True
        with block h have "sub' = sub" by simp
        with block ne True r t h B op gq show ?thesis by (simp add: blocked_def)
      next
        case False
        with block ne bl show ?thesis by (simp add: blocked_def)
      qed
    qed
    with SelectEnter np show ?thesis by (simp add: step_def)
  next
    case (TimerFires g')
    with q have ne: "g' \<noteq> g" by simp
    have "blocked g b B (broadcast_timeout g' s)"
    proof (cases rule: broadcast_timeout_cases [of g' s])
      case skip
      with bl show ?thesis by simp
    next
      case (drop b' t' sub')
      show ?thesis
      proof (cases "b_sub b' = b_sub b")
        case True
        with drop h have "sub' = sub" by simp
        with drop ne True r t h B op gq show ?thesis by (auto simp: blocked_def)
      next
        case False
        with drop ne bl show ?thesis by (simp add: blocked_def)
      qed
    qed
    with TimerFires np show ?thesis by (simp add: step_def)
  next
    case (OpenStream userID)
    from wf_heapD [OF w h] have "b_sub b \<noteq> nextp s" by simp
    with OpenStream np bl show ?thesis
      by (simp add: step_def SubscribeToNotifications_def blocked_def)
  next
    case (ChanRecv q')
    with q have ne: "q' \<noteq> b_sub b" by simp
    have rr: "running (session_recv q' s) g = running s g"
      using running_session_recv [of s q' g] nq ne by blast
    have "heap (session_recv q' s) (b_sub b) = heap s (b_sub b)"
    proof (cases rule: session_recv_cases [of q' s])
      case skip
      then show ?thesis by simp
    next
      case (recv sub' notif rest)
      with heap_frame [OF frame_chanrecv [OF ne, of s]] show ?thesis by simp
    qed
    with rr ChanRecv np bl show ?thesis by (simp add: step_def blocked_same)
  next
    case (StreamSend q' ok)
    have "heap (session_send q' ok s) (b_sub b) = heap s (b_sub b)"
    proof (cases rule: session_send_cases [of q' ok s])
      case skip
      then show ?thesis by simp
    next
      case (sent notif)
      then show ?thesis by simp
    next
      case (fail notif sub')
      with q StreamSend have ne: "q' \<noteq> b_sub b" by simp
      from fail heap_frame [OF frame_detach [OF ne, of "s\<lparr>sending := (sending s)(q' := None),
             logs := logs s @ [ErrorSendingToStream (userId sub')]\<rparr>"]]
      show ?thesis by simp
    qed
    with StreamSend np bl show ?thesis by (simp add: step_def blocked_same)
  next
    case (CtxDone q')
    with q have ne: "q' \<noteq> b_sub b" by simp
    have "heap (session_done q' s) (b_sub b) = heap s (b_sub b)"
    proof (cases rule: session_done_cases [of q' s])
      case skip
      then show ?thesis by simp
    next
      case (exit sub')
      with heap_frame [OF frame_detach [OF ne, of "s\<lparr>logs := logs s @ [ClientDisconnected (userId sub')]\<rparr>"]]
      show ?thesis by simp
    qed
    with CtxDone np bl show ?thesis by (simp add: step_def blocked_same)
  next
    case (Tick d)
    with np bl show ?thesis by (simp add: step_def blocked_def)
  qed
qed

lemma blocked_run:
  assumes "wf s" and "blocked g b B s" and "\<forall>e \<in> set es. quiet (b_sub b) g e"
  shows "blocked g b B (run es s)"
  using assms
proof (induction es arbitrary: s)
  case Nil
  then show ?case by simp
next
  case (Cons e es)
  from Cons.prems have "blocked g b B (step e s)" by (simp add: blocked_step)
  moreover from Cons.prems have "wf (step e s)" by (simp add: wf_step)
  ultimately show ?case using Cons.IH [of "step e s"] Cons.prems by simp
qed

subsection \<open>Where a notification can be\<close>

lemma carries_bufD:
  "\<not> carries_but G s n \<Longrightarrow> heap s p = Some sub \<Longrightarrow> m \<in> set (buf (ch sub)) \<Longrightarrow> m \<noteq> n"
  by (auto simp: carries_but_def)

lemma carries_sendqD:
  "\<not> carries_but G s n \<Longrightarrow> heap s p = Some sub \<Longrightarrow> w \<in> set (sendq (ch sub)) \<Longrightarrow> fst w \<notin> G \<Longrightarrow>
   snd (snd w) \<noteq> n"
  by (auto simp: carries_but_def)

lemma carries_runD:
  "\<not> carries_but G s n \<Longrightarrow> g \<notin> G \<Longrightarrow> running s g = Some b \<Longrightarrow> b_notif b \<noteq> n"
  by (auto simp: carries_but_def)

lemma carries_but_logs [simp]: "carries_but G (s\<lparr>logs := l\<rparr>) n = carries_but G s n"
  by (simp add: carries_but_def)

lemma carries_but_sent [simp]: "carries_but G (s\<lparr>sent := l\<rparr>) n = carries_but G s n"
  by (simp add: carries_but_def)

lemma carries_but_sending [simp]: "carries_but G (s\<lparr>sending := l\<rparr>) n = carries_but G s n"
  by (simp add: carries_but_def)

lemma carries_but_now [simp]: "carries_but G (s\<lparr>now := l\<rparr>) n = carries_but G s n"
  by (simp add: carries_but_def)

lemma carries_but_panicked [simp]: "carries_but G (s\<lparr>panicked := l\<rparr>) n = carries_but G s n"
  by (simp add: carries_but_def)

lemma carries_but_subscribers [simp]: "carries_but G (s\<lparr>subscribers := l\<rparr>) n = carries_but G s n"
  by (simp add: carries_but_def)

lemma carries_but_cong:
  "heap s' = heap s \<Longrightarrow> running s' = running s \<Longrightarrow> carries_but G s' n = carries_but G s n"
  by (simp add: carries_but_def)

lemma carries_but_upd:
  assumes nc: "\<not> carries_but G s n" and h: "heap s p = Some sub"
    and h': "heap s' = (heap s)(p \<mapsto> sub')"
    and b: "\<And>m. m \<in> set (buf (ch sub')) \<Longrightarrow> m \<noteq> n"
    and q: "\<And>w. w \<in> set (sendq (ch sub')) \<Longrightarrow> fst w \<notin> G \<Longrightarrow> snd (snd w) \<noteq> n"
    and r: "\<And>g b. g \<notin> G \<Longrightarrow> running s' g = Some b \<Longrightarrow> b_notif b \<noteq> n"
  shows "\<not> carries_but G s' n"
proof
  assume "carries_but G s' n"
  then consider (buf) q0 sub0 where "heap s' q0 = Some sub0" "n \<in> set (buf (ch sub0))"
    | (sendq) q0 sub0 w where "heap s' q0 = Some sub0" "w \<in> set (sendq (ch sub0))" "fst w \<notin> G"
        "snd (snd w) = n"
    | (run) g b0 where "g \<notin> G" "running s' g = Some b0" "b_notif b0 = n"
    by (auto simp: carries_but_def)
  then show False
  proof cases
    case buf
    with h' b carries_bufD [OF nc, of q0 sub0 n] show False
      by (cases "q0 = p") auto
  next
    case sendq
    with h' q [of w] carries_sendqD [OF nc, of q0 sub0 w] show False
      by (cases "q0 = p") auto
  next
    case run
    with r show False by blast
  qed
qed

lemma carries_but_broadcast:
  assumes "\<not> carries_but G s n" and "n' \<noteq> n"
  shows "\<not> carries_but G (broadcast g' u n' s) n"
proof (cases rule: broadcast_cases [of s u g' n'])
  case none
  with assms show ?thesis by simp
next
  case (found p)
  with assms show ?thesis by (auto simp: carries_but_def split: if_splits)
qed

lemma carries_but_subscribeToEvents:
  assumes nc: "\<not> carries_but G s n" and cr: "decode m uuid ts \<noteq> Some n"
  shows "\<not> carries_but G (subscribeToEvents m uuid ts s) n"
proof (cases "subscription (Subject m)")
  case None
  with nc show ?thesis by (simp add: subscribeToEvents_def)
next
  case (Some g')
  show ?thesis
  proof (cases "running s g' = None")
    case False
    with Some nc show ?thesis by (simp add: subscribeToEvents_def)
  next
    case True
    show ?thesis
    proof (cases "decode m uuid ts")
      case None
      with subscribeToEvents_decode [OF Some True, of uuid ts] nc show ?thesis by simp
    next
      case (Some n')
      with cr have "n' \<noteq> n" by simp
      with subscribeToEvents_decode [OF \<open>subscription (Subject m) = Some g'\<close> True, of uuid ts] Some nc
      show ?thesis by (simp add: carries_but_broadcast)
    qed
  qed
qed

lemma carries_but_select:
  assumes nc: "\<not> carries_but G s n"
    and full: "\<And>b sub. g' \<in> G \<Longrightarrow> running s g' = Some b \<Longrightarrow> b_timer b = None \<Longrightarrow>
                 heap s (b_sub b) = Some sub \<Longrightarrow> \<not> closed (ch sub) \<Longrightarrow>
                 cap (ch sub) \<le> length (buf (ch sub))"
  shows "\<not> carries_but G (broadcast_select g' s) n"
proof (cases rule: broadcast_select_cases [of g' s])
  case skip
  with nc show ?thesis by simp
next
  case (panic b sub)
  with nc show ?thesis by simp
next
  case (enqueue b sub)
  with full [of b sub] have ng: "g' \<notin> G" by auto
  from carries_runD [OF nc ng enqueue(1)] have bn: "b_notif b \<noteq> n" .
  let ?sub' = "sub\<lparr>ch := (ch sub)\<lparr>buf := buf (ch sub) @ [b_notif b]\<rparr>\<rparr>"
  let ?s' = "s\<lparr>heap := (heap s)(b_sub b \<mapsto> ?sub'), running := (running s)(g' := None)\<rparr>"
  have "\<not> carries_but G ?s' n"
  proof (rule carries_but_upd [OF nc enqueue(3)])
    fix m assume "m \<in> set (buf (ch ?sub'))"
    with bn carries_bufD [OF nc enqueue(3), of m] show "m \<noteq> n" by auto
  next
    fix w assume "w \<in> set (sendq (ch ?sub'))" "fst w \<notin> G"
    with carries_sendqD [OF nc enqueue(3), of w] show "snd (snd w) \<noteq> n" by simp
  next
    fix g b0 assume "g \<notin> G" "running ?s' g = Some b0"
    with carries_runD [OF nc, of g b0] show "b_notif b0 \<noteq> n" by (simp split: if_splits)
  qed simp
  with enqueue show ?thesis by simp
next
  case (block b sub)
  let ?sub' = "sub\<lparr>ch := (ch sub)\<lparr>sendq := sendq (ch sub) @ [(g', b_userID b, b_notif b)]\<rparr>\<rparr>"
  let ?s' = "s\<lparr>heap := (heap s)(b_sub b \<mapsto> ?sub'),
              running := (running s)(g' \<mapsto> b\<lparr>b_timer := Some (now s + 1 * Second)\<rparr>)\<rparr>"
  have "\<not> carries_but G ?s' n"
  proof (rule carries_but_upd [OF nc block(3)])
    fix m assume "m \<in> set (buf (ch ?sub'))"
    with carries_bufD [OF nc block(3), of m] show "m \<noteq> n" by auto
  next
    fix w assume "w \<in> set (sendq (ch ?sub'))" "fst w \<notin> G"
    with carries_sendqD [OF nc block(3), of w] carries_runD [OF nc _ block(1)]
    show "snd (snd w) \<noteq> n" by auto
  next
    fix g b0 assume "g \<notin> G" "running ?s' g = Some b0"
    with carries_runD [OF nc, of g b0] carries_runD [OF nc _ block(1)]
    show "b_notif b0 \<noteq> n" by (cases "g = g'") auto
  qed simp
  with block show ?thesis by simp
qed

lemma carries_but_timeout:
  assumes nc: "\<not> carries_but G s n"
  shows "\<not> carries_but G (broadcast_timeout g' s) n"
proof (cases rule: broadcast_timeout_cases [of g' s])
  case skip
  with nc show ?thesis by simp
next
  case (drop b t sub)
  let ?sub' = "sub\<lparr>ch := (ch sub)\<lparr>sendq := filter (\<lambda>w. fst w \<noteq> g') (sendq (ch sub))\<rparr>\<rparr>"
  let ?s' = "s\<lparr>heap := (heap s)(b_sub b \<mapsto> ?sub'), running := (running s)(g' := None)\<rparr>"
  have "\<not> carries_but G ?s' n"
  proof (rule carries_but_upd [OF nc drop(3)])
    fix m assume "m \<in> set (buf (ch ?sub'))"
    with carries_bufD [OF nc drop(3), of m] show "m \<noteq> n" by auto
  next
    fix w assume "w \<in> set (sendq (ch ?sub'))" "fst w \<notin> G"
    with carries_sendqD [OF nc drop(3), of w] show "snd (snd w) \<noteq> n" by simp
  next
    fix g b0 assume "g \<notin> G" "running ?s' g = Some b0"
    with carries_runD [OF nc, of g b0] show "b_notif b0 \<noteq> n" by (simp split: if_splits)
  qed simp
  with drop show ?thesis by simp
qed

lemma carries_but_chanrecv:
  assumes nc: "\<not> carries_but G s n"
    and hd: "\<And>sub g. heap s q = Some sub \<Longrightarrow> g \<in> G \<Longrightarrow> g \<notin> fst ` set (sendq (ch sub))"
  shows "\<not> carries_but G (chanrecv q s) n"
proof (cases rule: chanrecv_cases [of s q])
  case none
  with nc show ?thesis by simp
next
  case (plain sub)
  let ?sub' = "sub\<lparr>ch := (ch sub)\<lparr>buf := tl (buf (ch sub))\<rparr>\<rparr>"
  let ?s' = "s\<lparr>heap := (heap s)(q \<mapsto> ?sub')\<rparr>"
  have "\<not> carries_but G ?s' n"
  proof (rule carries_but_upd [OF nc plain(1)])
    fix m assume "m \<in> set (buf (ch ?sub'))"
    then have "m \<in> set (buf (ch sub))" by (auto dest: set_tl_in)
    with carries_bufD [OF nc plain(1), of m] show "m \<noteq> n" by auto
  next
    fix w assume "w \<in> set (sendq (ch ?sub'))" "fst w \<notin> G"
    with carries_sendqD [OF nc plain(1), of w] show "snd (snd w) \<noteq> n" by simp
  next
    fix g b0 assume "g \<notin> G" "running ?s' g = Some b0"
    with carries_runD [OF nc, of g b0] show "b_notif b0 \<noteq> n" by simp
  qed simp
  with plain show ?thesis by simp
next
  case (handoff sub w0 ws)
  from hd [OF handoff(1)] handoff(2) have ng: "fst w0 \<notin> G" by auto
  from carries_sendqD [OF nc handoff(1), of w0] handoff(2) ng have n0: "snd (snd w0) \<noteq> n" by simp
  let ?sub' = "sub\<lparr>ch := (ch sub)\<lparr>buf := tl (buf (ch sub)) @ [snd (snd w0)], sendq := ws\<rparr>\<rparr>"
  let ?s' = "s\<lparr>heap := (heap s)(q \<mapsto> ?sub'), running := (running s)(fst w0 := None)\<rparr>"
  have "\<not> carries_but G ?s' n"
  proof (rule carries_but_upd [OF nc handoff(1)])
    fix m assume "m \<in> set (buf (ch ?sub'))"
    then have "m \<in> set (buf (ch sub)) \<or> m = snd (snd w0)" by (auto dest: set_tl_in)
    with n0 carries_bufD [OF nc handoff(1), of m] show "m \<noteq> n" by auto
  next
    fix w assume "w \<in> set (sendq (ch ?sub'))" "fst w \<notin> G"
    with handoff(2) carries_sendqD [OF nc handoff(1), of w] show "snd (snd w) \<noteq> n" by simp
  next
    fix g b0 assume "g \<notin> G" "running ?s' g = Some b0"
    with carries_runD [OF nc, of g b0] show "b_notif b0 \<noteq> n" by (simp split: if_splits)
  qed simp
  with handoff show ?thesis by simp
qed

lemma carries_but_detach:
  assumes nc: "\<not> carries_but G s n"
  shows "\<not> carries_but G (detach p s) n"
proof (cases "heap s p")
  case None
  with nc show ?thesis by (simp add: detach_def)
next
  case (Some sub)
  let ?sub' = "sub\<lparr>ch := (ch sub)\<lparr>closed := True\<rparr>\<rparr>"
  let ?s' = "s\<lparr>heap := (heap s)(p \<mapsto> ?sub')\<rparr>"
  have "\<not> carries_but G ?s' n"
  proof (rule carries_but_upd [OF nc Some])
    fix m assume "m \<in> set (buf (ch ?sub'))"
    with carries_bufD [OF nc Some, of m] show "m \<noteq> n" by auto
  next
    fix w assume "w \<in> set (sendq (ch ?sub'))" "fst w \<notin> G"
    with carries_sendqD [OF nc Some, of w] show "snd (snd w) \<noteq> n" by simp
  next
    fix g b0 assume "g \<notin> G" "running ?s' g = Some b0"
    with carries_runD [OF nc, of g b0] show "b_notif b0 \<noteq> n" by simp
  qed simp
  moreover have "carries_but G (detach p s) n = carries_but G ?s' n"
    using Some by (intro carries_but_cong) (simp_all add: detach_eq)
  ultimately show ?thesis by simp
qed

lemma carries_but_SubscribeToNotifications:
  assumes nc: "\<not> carries_but G s n"
  shows "\<not> carries_but G (SubscribeToNotifications userID s) n"
proof
  let ?s' = "SubscribeToNotifications userID s"
  assume "carries_but G ?s' n"
  then consider (buf) q0 sub0 where "heap ?s' q0 = Some sub0" "n \<in> set (buf (ch sub0))"
    | (sendq) q0 sub0 w where "heap ?s' q0 = Some sub0" "w \<in> set (sendq (ch sub0))" "fst w \<notin> G"
        "snd (snd w) = n"
    | (run) g b0 where "g \<notin> G" "running ?s' g = Some b0" "b_notif b0 = n"
    by (auto simp: carries_but_def)
  then show False
  proof cases
    case buf
    with carries_bufD [OF nc, of q0 sub0 n] show False
      by (auto simp: SubscribeToNotifications_def split: if_splits)
  next
    case sendq
    with carries_sendqD [OF nc, of q0 sub0 w] show False
      by (auto simp: SubscribeToNotifications_def split: if_splits)
  next
    case run
    with carries_runD [OF nc, of g b0] show False
      by (simp add: SubscribeToNotifications_def)
  qed
qed

lemma carries_but_session_recv:
  assumes nc: "\<not> carries_but G s n"
    and hd: "\<And>sub g. heap s q = Some sub \<Longrightarrow> g \<in> G \<Longrightarrow> g \<notin> fst ` set (sendq (ch sub))"
  shows "\<not> carries_but G (session_recv q s) n"
proof -
  have c: "\<not> carries_but G (chanrecv q s) n"
    by (rule carries_but_chanrecv [OF nc]) (rule hd)
  with nc show ?thesis
    by (cases rule: session_recv_cases [of q s]) simp_all
qed

lemma carries_but_session_send:
  "\<not> carries_but G s n \<Longrightarrow> \<not> carries_but G (session_send q ok s) n"
  by (cases rule: session_send_cases [of q ok s]) (simp_all add: carries_but_detach)

lemma carries_but_session_done:
  "\<not> carries_but G s n \<Longrightarrow> \<not> carries_but G (session_done q s) n"
  by (cases rule: session_done_cases [of q s]) (simp_all add: carries_but_detach)

lemma carries_but_step:
  assumes nc: "\<not> carries_but G s n" and cr: "\<not> creates e n"
    and full: "\<And>g b sub. g \<in> G \<Longrightarrow> e = SelectEnter g \<Longrightarrow> running s g = Some b \<Longrightarrow>
                 b_timer b = None \<Longrightarrow> heap s (b_sub b) = Some sub \<Longrightarrow> \<not> closed (ch sub) \<Longrightarrow>
                 cap (ch sub) \<le> length (buf (ch sub))"
    and hd: "\<And>g q sub. g \<in> G \<Longrightarrow> e = ChanRecv q \<Longrightarrow> heap s q = Some sub \<Longrightarrow>
               g \<notin> fst ` set (sendq (ch sub))"
  shows "\<not> carries_but G (step e s) n"
proof (cases "panicked s")
  case True
  with nc show ?thesis by (simp add: step_def)
next
  case False
  show ?thesis
  proof (cases e)
    case (NatsMsg m uuid ts)
    with cr False nc show ?thesis by (simp add: step_def carries_but_subscribeToEvents)
  next
    case (SelectEnter g')
    with False carries_but_select [OF nc, of g'] full show ?thesis by (simp add: step_def)
  next
    case (TimerFires g')
    with False nc show ?thesis by (simp add: step_def carries_but_timeout)
  next
    case (OpenStream userID)
    with False nc show ?thesis by (simp add: step_def carries_but_SubscribeToNotifications)
  next
    case (ChanRecv q)
    with False carries_but_session_recv [OF nc, of q] hd show ?thesis by (simp add: step_def)
  next
    case (StreamSend q ok)
    with False nc show ?thesis by (simp add: step_def carries_but_session_send)
  next
    case (CtxDone q)
    with False nc show ?thesis by (simp add: step_def carries_but_session_done)
  next
    case (Tick d)
    with False nc show ?thesis by (simp add: step_def)
  qed
qed

lemma carries_run:
  assumes "\<not> carries s n" and "\<forall>e \<in> set es. \<not> creates e n"
  shows "\<not> carries (run es s) n"
  using assms
proof (induction es arbitrary: s)
  case Nil
  then show ?case by simp
next
  case (Cons e es)
  from Cons.prems have "\<not> carries_but {} (step e s) n"
    by (intro carries_but_step) (simp_all add: carries_def)
  with Cons.IH [of "step e s"] Cons.prems show ?case by (simp add: carries_def)
qed

lemma carries_looked_run:
  assumes "wf s" and "running s g = Some b" and "b_timer b = None"
    and "\<forall>e \<in> set es. e \<noteq> SelectEnter g \<and> \<not> creates e n"
    and "\<not> carries_but {g} s n"
  shows "\<not> carries_but {g} (run es s) n"
  using assms
proof (induction es arbitrary: s)
  case Nil
  then show ?case by simp
next
  case (Cons e es)
  have "\<not> carries_but {g} (step e s) n"
  proof (rule carries_but_step)
    show "\<not> carries_but {g} s n" by (rule Cons.prems)
    show "\<not> creates e n" using Cons.prems by simp
  next
    fix g' b' sub assume "g' \<in> {g}" "e = SelectEnter g'"
    with Cons.prems show "cap (ch sub) \<le> length (buf (ch sub))" by simp
  next
    fix g' q sub assume "g' \<in> {g}" "e = ChanRecv q" "heap s q = Some sub"
    with wf_not_queued [OF Cons.prems(1,2,3), of q sub] show "g' \<notin> fst ` set (sendq (ch sub))"
      by simp
  qed
  moreover from Cons.prems have "running (step e s) g = Some b" by (simp add: looked_step)
  moreover from Cons.prems have "wf (step e s)" by (simp add: wf_step)
  ultimately show ?case using Cons.IH [of "step e s"] Cons.prems by simp
qed

lemma carries_blocked_run:
  assumes "wf s" and "blocked g b B s"
    and "\<forall>e \<in> set es. quiet (b_sub b) g e \<and> \<not> creates e n"
    and "\<not> carries_but {g} s n"
  shows "\<not> carries_but {g} (run es s) n"
  using assms
proof (induction es arbitrary: s)
  case Nil
  then show ?case by simp
next
  case (Cons e es)
  from Cons.prems(2) have r: "running s g = Some b" and t: "b_timer b \<noteq> None"
    by (simp_all add: blocked_def)
  have "\<not> carries_but {g} (step e s) n"
  proof (rule carries_but_step)
    show "\<not> carries_but {g} s n" by (rule Cons.prems)
    show "\<not> creates e n" using Cons.prems by simp
  next
    fix g' b' sub assume "g' \<in> {g}" "running s g' = Some b'" "b_timer b' = None"
    with r t show "cap (ch sub) \<le> length (buf (ch sub))" by simp
  next
    fix g' q sub assume a: "g' \<in> {g}" "e = ChanRecv q" "heap s q = Some sub"
    with Cons.prems(3) have "q \<noteq> b_sub b" by simp
    with wf_queued_here [OF Cons.prems(1) r a(3)] a(1) show "g' \<notin> fst ` set (sendq (ch sub))"
      by auto
  qed
  moreover from Cons.prems have "blocked g b B (step e s)" by (simp add: blocked_step)
  moreover from Cons.prems have "wf (step e s)" by (simp add: wf_step)
  ultimately show ?case using Cons.IH [of "step e s"] Cons.prems by simp
qed

lemma select_enqueue:
  assumes "running s g = Some b" and "b_timer b = None" and "heap s (b_sub b) = Some sub"
    and "\<not> closed (ch sub)" and "length (buf (ch sub)) < cap (ch sub)" and "\<not> panicked s"
  shows "step (SelectEnter g) s =
           s\<lparr>heap := (heap s)(b_sub b \<mapsto> sub\<lparr>ch := (ch sub)\<lparr>buf := buf (ch sub) @ [b_notif b]\<rparr>\<rparr>),
             running := (running s)(g := None),
             logs := logs s @ [SuccessfullyBroadcasted (b_userID b)]\<rparr>"
  using assms by (simp add: step_def broadcast_select_def)

lemma select_block:
  assumes "running s g = Some b" and "b_timer b = None" and "heap s (b_sub b) = Some sub"
    and "\<not> closed (ch sub)" and "cap (ch sub) \<le> length (buf (ch sub))" and "\<not> panicked s"
  shows "step (SelectEnter g) s =
           s\<lparr>heap := (heap s)(b_sub b \<mapsto>
                      sub\<lparr>ch := (ch sub)\<lparr>sendq := sendq (ch sub) @ [(g, b_userID b, b_notif b)]\<rparr>\<rparr>),
             running := (running s)(g \<mapsto> b\<lparr>b_timer := Some (now s + 1 * Second)\<rparr>)\<rparr>"
    and "blocked g (b\<lparr>b_timer := Some (now s + 1 * Second)\<rparr>) (buf (ch sub)) (step (SelectEnter g) s)"
proof -
  from assms show e: "step (SelectEnter g) s =
           s\<lparr>heap := (heap s)(b_sub b \<mapsto>
                      sub\<lparr>ch := (ch sub)\<lparr>sendq := sendq (ch sub) @ [(g, b_userID b, b_notif b)]\<rparr>\<rparr>),
             running := (running s)(g \<mapsto> b\<lparr>b_timer := Some (now s + 1 * Second)\<rparr>)\<rparr>"
    by (simp add: step_def broadcast_select_def)
  from assms show "blocked g (b\<lparr>b_timer := Some (now s + 1 * Second)\<rparr>) (buf (ch sub)) (step (SelectEnter g) s)"
    unfolding e by (simp add: blocked_def)
qed

lemma timeout_drop:
  assumes bl: "blocked g b B s" and np: "\<not> panicked s" and t: "b_timer b = Some t"
  shows "now s < t \<Longrightarrow> step (TimerFires g) s = s"
    and "t \<le> now s \<Longrightarrow> logs (step (TimerFires g) s) = logs s @ [ChannelFullDropping (b_userID b)]"
    and "t \<le> now s \<Longrightarrow> running (step (TimerFires g) s) g = None"
    and "t \<le> now s \<Longrightarrow> \<exists>sub. heap (step (TimerFires g) s) (b_sub b) = Some sub \<and> buf (ch sub) = B
                                \<and> g \<notin> fst ` set (sendq (ch sub))"
    and "t \<le> now s \<Longrightarrow> wf s \<Longrightarrow> \<not> carries_but {g} s n \<Longrightarrow> \<not> carries (step (TimerFires g) s) n"
proof -
  from bl obtain sub where r: "running s g = Some b"
    and h: "heap s (b_sub b) = Some sub" and B: "buf (ch sub) = B"
    and gq: "g \<in> fst ` set (sendq (ch sub))"
    by (auto simp: blocked_def)
  show "step (TimerFires g) s = s" if "now s < t"
    using that r t h np by (simp add: step_def broadcast_timeout_def)
  assume le: "t \<le> now s"
  let ?sub' = "sub\<lparr>ch := (ch sub)\<lparr>sendq := filter (\<lambda>w. fst w \<noteq> g) (sendq (ch sub))\<rparr>\<rparr>"
  have e: "step (TimerFires g) s =
      s\<lparr>heap := (heap s)(b_sub b \<mapsto> ?sub'), running := (running s)(g := None),
        logs := logs s @ [ChannelFullDropping (b_userID b)]\<rparr>"
    using r t h np le gq by (simp add: step_def broadcast_timeout_def)
  from e show "logs (step (TimerFires g) s) = logs s @ [ChannelFullDropping (b_userID b)]" by simp
  from e show "running (step (TimerFires g) s) g = None" by simp
  from e B show "\<exists>sub. heap (step (TimerFires g) s) (b_sub b) = Some sub \<and> buf (ch sub) = B
                                \<and> g \<notin> fst ` set (sendq (ch sub))" by auto
  assume w: "wf s" and nc: "\<not> carries_but {g} s n"
  let ?s' = "s\<lparr>heap := (heap s)(b_sub b \<mapsto> ?sub'), running := (running s)(g := None)\<rparr>"
  have "\<not> carries_but {} ?s' n"
  proof
    assume "carries_but {} ?s' n"
    then consider (buf) q0 sub0 where "heap ?s' q0 = Some sub0" "n \<in> set (buf (ch sub0))"
      | (sendq) q0 sub0 w0 where "heap ?s' q0 = Some sub0" "w0 \<in> set (sendq (ch sub0))"
          "snd (snd w0) = n"
      | (run) g' b0 where "running ?s' g' = Some b0" "b_notif b0 = n"
      by (auto simp: carries_but_def)
    then show False
    proof cases
      case buf
      with h carries_bufD [OF nc, of q0 _ n] show False
        by (cases "q0 = b_sub b") auto
    next
      case sendq
      show False
      proof (cases "q0 = b_sub b")
        case True
        with sendq h have "w0 \<in> set (sendq (ch sub))" "fst w0 \<noteq> g" by auto
        with carries_sendqD [OF nc h, of w0] sendq show False by simp
      next
        case False
        with sendq have h0: "heap s q0 = Some sub0" by simp
        have "fst w0 \<noteq> g"
        proof
          assume "fst w0 = g"
          with sendq have "g \<in> fst ` set (sendq (ch sub0))" by force
          from wf_queued_here [OF w r h0 this] False show False by simp
        qed
        with carries_sendqD [OF nc h0, of w0] sendq show False by simp
      qed
    next
      case run
      then have "g' \<noteq> g" "running s g' = Some b0" by (auto split: if_splits)
      with carries_runD [OF nc, of g' b0] run show False by simp
    qed
  qed
  with e show "\<not> carries (step (TimerFires g) s) n" by (simp add: carries_def)
qed

section \<open>The example states\<close>

lemma subscribeToEvents_bill:
  "running s BillUpdate = None \<Longrightarrow>
   subscribeToEvents (bill u msg) uuid ''t'' s =
     broadcast BillUpdate u (notif uuid u msg)
       (s\<lparr>logs := logs s @ [ReceivedBillUpdate (Data (bill u msg))]\<rparr>)"
  by (simp add: subscribeToEvents_def bill_def subscription_simps on_bill_update_def
                Unmarshal_billUpdate_object bill_update_notif_def notif_def)

lemma decode_bill: "decode (bill u msg) uuid ''t'' = Some (notif uuid u msg)"
  by (simp add: decode_def bill_def subscription_simps Unmarshal_billUpdate_object
                bill_update_notif_def notif_def)

lemma replicate_10: "replicate 10 x = [x, x, x, x, x, x, x, x, x, x]"
  by (simp add: numeral_eq_Suc)

lemma one_stream_eq:
  "one_stream =
     \<lparr>subscribers = [''u1'' \<mapsto> 0],
      heap = [0 \<mapsto> \<lparr>ch = \<lparr>buf = [], cap = 10, closed = False, sendq = []\<rparr>, userId = ''u1''\<rparr>],
      nextp = 1, running = Map.empty, sending = Map.empty, sent = [], now = 0,
      logs = [NewSubscriber ''u1''], panicked = False\<rparr>"
  by (simp add: one_stream_def step_def SubscribeToNotifications_def init_def)

lemma full_stream_eq:
  "full_stream =
     \<lparr>subscribers = [''u1'' \<mapsto> 0],
      heap = [0 \<mapsto> \<lparr>ch = \<lparr>buf = replicate 10 (notif ''i'' ''u1'' ''m''), cap = 10, closed = False,
                           sendq = []\<rparr>, userId = ''u1''\<rparr>],
      nextp = 1, running = Map.empty, sending = Map.empty, sent = [], now = 0,
      logs = NewSubscriber ''u1'' #
             concat (replicate 10 [ReceivedBillUpdate (Data (bill ''u1'' ''m'')),
                                   SuccessfullyBroadcasted ''u1'']),
      panicked = False\<rparr>"
  by (simp add: full_stream_def fill_def replicate_10 step_def SubscribeToNotifications_def init_def
                subscribeToEvents_bill broadcast_def broadcast_select_def)

lemma wf_one_stream: "wf one_stream"
  unfolding one_stream_def by (rule wf_run [OF wf_init])

lemma wf_full_stream: "wf full_stream"
  unfolding full_stream_def by (rule wf_run [OF wf_init])

lemma carries_init: "\<not> carries init n"
  by (simp add: carries_def carries_but_def init_def)

lemma idle_init: "running init g = None"
  by (simp add: init_def)

lemma idle_one_stream: "running one_stream g = None"
  by (simp add: one_stream_eq)

lemma idle_full_stream: "running full_stream g = None"
  by (simp add: full_stream_eq)

lemma not_carried_full_stream: "\<not> carries full_stream (notif ''j'' ''u1'' ''x'')"
proof -
  have "\<forall>e \<in> set (OpenStream ''u1'' # fill 10). \<not> creates e (notif ''j'' ''u1'' ''x'')"
    by (simp add: fill_def replicate_10 decode_bill notif_def)
  from carries_run [OF carries_init this] show ?thesis by (simp add: full_stream_def)
qed

lemma two_streams_eq:
  "two_streams =
     \<lparr>subscribers = [''u1'' \<mapsto> 0, ''u2'' \<mapsto> 1],
      heap = [0 \<mapsto> \<lparr>ch = \<lparr>buf = [notif ''i'' ''u1'' ''m''], cap = 10, closed = False, sendq = []\<rparr>,
                      userId = ''u1''\<rparr>,
              1 \<mapsto> \<lparr>ch = \<lparr>buf = [], cap = 10, closed = False, sendq = []\<rparr>, userId = ''u2''\<rparr>],
      nextp = 2, running = Map.empty, sending = Map.empty, sent = [], now = 0,
      logs = [NewSubscriber ''u1'', NewSubscriber ''u2'', ReceivedBillUpdate (Data (bill ''u1'' ''m'')),
              SuccessfullyBroadcasted ''u1''],
      panicked = False\<rparr>"
  by (simp add: two_streams_def step_def SubscribeToNotifications_def init_def
                subscribeToEvents_bill broadcast_def broadcast_select_def fun_upd_twist)

lemma one_record_eq:
  "one_record =
     \<lparr>subscribers = [''u1'' \<mapsto> 0],
      heap = [0 \<mapsto> \<lparr>ch = \<lparr>buf = [notif ''i'' ''u1'' ''m''], cap = 10, closed = False, sendq = []\<rparr>,
                      userId = ''u1''\<rparr>],
      nextp = 1, running = Map.empty, sending = Map.empty, sent = [], now = 0,
      logs = [NewSubscriber ''u1'', ReceivedBillUpdate (Data (bill ''u1'' ''m'')),
              SuccessfullyBroadcasted ''u1''],
      panicked = False\<rparr>"
  by (simp add: one_record_def step_def SubscribeToNotifications_def init_def
                subscribeToEvents_bill broadcast_def broadcast_select_def)

lemma wf_one_record: "wf one_record"
  unfolding one_record_def by (rule wf_run [OF wf_init])

lemma carries_but_started:
  assumes "\<not> carries s n" and "subscribers s u = Some p"
  shows "\<not> carries_but {g} (broadcast g u n' s) n"
proof -
  from assms(2) have e: "broadcast g u n' s =
      s\<lparr>running := (running s)(g \<mapsto> \<lparr>b_userID = u, b_notif = n', b_sub = p, b_timer = None\<rparr>)\<rparr>"
    by (simp add: broadcast_def)
  from assms(1) show ?thesis
    unfolding e carries_def carries_but_def by auto
qed

section \<open>The outcomes of a delivery\<close>

text \<open>
  What holds of the three outcomes, as long as the session of the subscriber stays in its
  loop. A call \<^verbatim>\<open>broadcast(u, n)\<close> starts in a state of a run (\<open>wf\<close> holds in every run,
  see \<open>wf_run\<close>) in which the callback \<open>g\<close> that makes it is free. Its outcome is the line
  it logs.
  \<^item> No entry for \<open>u\<close>: the call logs that there is no subscriber and returns; the state
    changes in nothing else.
  \<^item> An entry for \<open>u\<close> points to an open channel of a subscriber of \<open>u\<close>. The call keeps the
    pointer; whatever the other goroutines do before it enters its \<^verbatim>\<open>select\<close> (\<open>es0\<close>), if
    the channel is then open and has room, \<open>n\<close> is appended to its buffer, the call logs the
    success and returns.
  \<^item> If the channel is then open and full, the call waits. While the session of the channel
    neither receives nor returns (\<open>es\<close>: the queue is kept full), the timer cannot fire before
    one second has passed since the \<^verbatim>\<open>select\<close> was entered; when it fires, the call logs that it
    drops the notification and returns, the buffer is what it was, and the call has left the
    queue of senders. If the service did not hold \<open>n\<close> before the call and no message that
    yields \<open>n\<close> arrives, the service never holds \<open>n\<close> again, whatever happens later (\<open>es'\<close>).
\<close>

theorem deliver_outcomes:
  assumes w: "wf s" and idle: "running s g = None"
  shows "(subscribers s u = None \<longrightarrow>
            broadcast g u n s = s\<lparr>logs := logs s @ [NoActiveSubscribers u]\<rparr>)
     \<and> (\<forall>p. subscribers s u = Some p \<longrightarrow>
           (\<exists>sub. heap s p = Some sub \<and> userId sub = u \<and> \<not> closed (ch sub)))
     \<and> (\<forall>p es0 sub1.
           subscribers s u = Some p \<and> (\<forall>e \<in> set es0. e \<noteq> SelectEnter g) \<and>
           heap (at_select g u n es0 s) p = Some sub1 \<and> \<not> closed (ch sub1) \<and>
           \<not> panicked (at_select g u n es0 s) \<longrightarrow>
           (length (buf (ch sub1)) < cap (ch sub1) \<longrightarrow>
              step (SelectEnter g) (at_select g u n es0 s) =
                (at_select g u n es0 s)
                  \<lparr>heap := (heap (at_select g u n es0 s))
                             (p \<mapsto> sub1\<lparr>ch := (ch sub1)\<lparr>buf := buf (ch sub1) @ [n]\<rparr>\<rparr>),
                    running := (running (at_select g u n es0 s))(g := None),
                    logs := logs (at_select g u n es0 s) @ [SuccessfullyBroadcasted u]\<rparr>)
         \<and> (cap (ch sub1) \<le> length (buf (ch sub1)) \<longrightarrow>
              (\<forall>es. (\<forall>e \<in> set es. quiet p g e) \<and> \<not> panicked (at_timer g u n es0 es s) \<longrightarrow>
                 (now (at_timer g u n es0 es s) < now (at_select g u n es0 s) + 1 * Second \<longrightarrow>
                    step (TimerFires g) (at_timer g u n es0 es s) = at_timer g u n es0 es s)
               \<and> (now (at_select g u n es0 s) + 1 * Second \<le> now (at_timer g u n es0 es s) \<longrightarrow>
                    logs (step (TimerFires g) (at_timer g u n es0 es s))
                      = logs (at_timer g u n es0 es s) @ [ChannelFullDropping u]
                  \<and> running (step (TimerFires g) (at_timer g u n es0 es s)) g = None
                  \<and> (\<exists>sub3. heap (step (TimerFires g) (at_timer g u n es0 es s)) p = Some sub3
                        \<and> buf (ch sub3) = buf (ch sub1) \<and> g \<notin> fst ` set (sendq (ch sub3)))
                  \<and> (\<not> carries s n \<and> (\<forall>e \<in> set (es0 @ es). \<not> creates e n) \<longrightarrow>
                       (\<forall>es'. (\<forall>e \<in> set es'. \<not> creates e n) \<longrightarrow>
                          \<not> carries (run es' (step (TimerFires g) (at_timer g u n es0 es s))) n))))))"
proof (intro conjI allI impI)
  assume "subscribers s u = None"
  then show "broadcast g u n s = s\<lparr>logs := logs s @ [NoActiveSubscribers u]\<rparr>"
    by (simp add: broadcast_def)
next
  fix p assume "subscribers s u = Some p"
  with w show "\<exists>sub. heap s p = Some sub \<and> userId sub = u \<and> \<not> closed (ch sub)"
    by (rule wf_regD)
next
  fix p es0 sub1
  assume a: "subscribers s u = Some p \<and> (\<forall>e \<in> set es0. e \<noteq> SelectEnter g) \<and>
           heap (at_select g u n es0 s) p = Some sub1 \<and> \<not> closed (ch sub1) \<and>
           \<not> panicked (at_select g u n es0 s)"
  define b0 where "b0 = \<lparr>b_userID = u, b_notif = n, b_sub = p, b_timer = None\<rparr>"
  define s1 where "s1 = at_select g u n es0 s"
  from a have e0: "broadcast g u n s = s\<lparr>running := (running s)(g \<mapsto> b0)\<rparr>"
    by (simp add: broadcast_def b0_def)
  have w0: "wf (broadcast g u n s)" using w idle by (rule wf_broadcast)
  have r0: "running (broadcast g u n s) g = Some b0" by (simp add: e0)
  have t0: "b_timer b0 = None" by (simp add: b0_def)
  have w1: "wf s1" unfolding s1_def using w0 by (rule wf_run)
  have r1: "running s1 g = Some b0"
    unfolding s1_def using w0 r0 t0 a by (intro looked_run) simp_all
  have h1: "heap s1 (b_sub b0) = Some sub1" and o1: "\<not> closed (ch sub1)" and p1: "\<not> panicked s1"
    using a by (simp_all add: s1_def b0_def)
  {
    assume "length (buf (ch sub1)) < cap (ch sub1)"
    from select_enqueue [OF r1 t0 h1 o1 this p1]
    show "step (SelectEnter g) (at_select g u n es0 s) =
                (at_select g u n es0 s)
                  \<lparr>heap := (heap (at_select g u n es0 s))
                             (p \<mapsto> sub1\<lparr>ch := (ch sub1)\<lparr>buf := buf (ch sub1) @ [n]\<rparr>\<rparr>),
                    running := (running (at_select g u n es0 s))(g := None),
                    logs := logs (at_select g u n es0 s) @ [SuccessfullyBroadcasted u]\<rparr>"
      by (simp add: s1_def b0_def)
  }
  assume full: "cap (ch sub1) \<le> length (buf (ch sub1))"
  define b1 where "b1 = b0\<lparr>b_timer := Some (now s1 + 1 * Second)\<rparr>"
  define s1' where "s1' = step (SelectEnter g) s1"
  have bl1: "blocked g b1 (buf (ch sub1)) s1'"
    unfolding b1_def s1'_def by (rule select_block(2) [OF r1 t0 h1 o1 full p1])
  have w1': "wf s1'" unfolding s1'_def using w1 by (rule wf_step)
  have pb: "b_sub b1 = p" "b_userID b1 = u" "b_timer b1 = Some (now s1 + 1 * Second)"
    by (simp_all add: b1_def b0_def)
  fix es
  assume q: "(\<forall>e \<in> set es. quiet p g e) \<and> \<not> panicked (at_timer g u n es0 es s)"
  define s2 where "s2 = run es s1'"
  have s2: "at_timer g u n es0 es s = s2" by (simp add: s2_def s1'_def s1_def)
  have bl2: "blocked g b1 (buf (ch sub1)) s2"
    unfolding s2_def using w1' bl1 q pb by (intro blocked_run) simp_all
  have w2: "wf s2" unfolding s2_def using w1' by (rule wf_run)
  have p2: "\<not> panicked s2" using q s2 by simp
  note td = timeout_drop [OF bl2 p2 pb(3)]
  {
    assume "now (at_timer g u n es0 es s) < now (at_select g u n es0 s) + 1 * Second"
    with td(1) show "step (TimerFires g) (at_timer g u n es0 es s) = at_timer g u n es0 es s"
      unfolding s2 by (simp add: s1_def)
  }
  assume "now (at_select g u n es0 s) + 1 * Second \<le> now (at_timer g u n es0 es s)"
  then have le: "now s1 + 1 * Second \<le> now s2" unfolding s2 by (simp add: s1_def)
  from td(2) [OF le] pb show "logs (step (TimerFires g) (at_timer g u n es0 es s))
                      = logs (at_timer g u n es0 es s) @ [ChannelFullDropping u]"
    unfolding s2 by simp
  from td(3) [OF le] show "running (step (TimerFires g) (at_timer g u n es0 es s)) g = None"
    unfolding s2 .
  from td(4) [OF le] pb show "\<exists>sub3. heap (step (TimerFires g) (at_timer g u n es0 es s)) p = Some sub3
                        \<and> buf (ch sub3) = buf (ch sub1) \<and> g \<notin> fst ` set (sendq (ch sub3))"
    unfolding s2 by simp
  fix es'
  assume c: "\<not> carries s n \<and> (\<forall>e \<in> set (es0 @ es). \<not> creates e n)"
    and c': "\<forall>e \<in> set es'. \<not> creates e n"
  from c a have "\<not> carries_but {g} (broadcast g u n s) n"
    by (intro carries_but_started [of s n u p]) simp_all
  with w0 r0 t0 a c have nc1: "\<not> carries_but {g} s1 n"
    unfolding s1_def by (intro carries_looked_run [of _ g b0]) simp_all
  have nc1': "\<not> carries_but {g} s1' n"
    unfolding s1'_def
  proof (rule carries_but_step [OF nc1])
    show "\<not> creates (SelectEnter g) n" by simp
  next
    fix g' b' sub assume "g' \<in> {g}" "running s1 g' = Some b'" "heap s1 (b_sub b') = Some sub"
    with r1 h1 full show "cap (ch sub) \<le> length (buf (ch sub))" by simp
  next
    fix g' q' sub assume "SelectEnter g = ChanRecv q'"
    then show "g' \<notin> fst ` set (sendq (ch sub))" by simp
  qed
  have nc2: "\<not> carries_but {g} s2 n"
    unfolding s2_def using w1' bl1 q c pb nc1' by (intro carries_blocked_run [of _ g b1]) simp_all
  from td(5) [OF le w2 nc2] have "\<not> carries (step (TimerFires g) s2) n" .
  from carries_run [OF this c']
  show "\<not> carries (run es' (step (TimerFires g) (at_timer g u n es0 es s))) n"
    unfolding s2 .
qed

text \<open>
  The three outcomes: a bill update for u2 with no stream open (scenario B of the
  specification); one for u1 with a stream open; one for u1 whose channel holds ten
  notifications, the session doing nothing for one second.
\<close>

theorem deliver_outcomes_example:
  "wf init \<and> running init BillUpdate = None \<and> subscribers init ''u2'' = None
   \<and> broadcast BillUpdate ''u2'' (notif ''j'' ''u2'' ''Balance: $42.00'') init
       = init\<lparr>logs := [NoActiveSubscribers ''u2'']\<rparr>
   \<and> wf one_stream \<and> running one_stream BillUpdate = None
   \<and> subscribers one_stream ''u1'' = Some 0
   \<and> heap (step (SelectEnter BillUpdate) (at_select BillUpdate ''u1'' (notif ''j'' ''u1'' ''x'') [] one_stream)) 0
       = Some \<lparr>ch = \<lparr>buf = [notif ''j'' ''u1'' ''x''], cap = 10, closed = False, sendq = []\<rparr>,
               userId = ''u1''\<rparr>
   \<and> logs (step (SelectEnter BillUpdate) (at_select BillUpdate ''u1'' (notif ''j'' ''u1'' ''x'') [] one_stream))
       = [NewSubscriber ''u1'', SuccessfullyBroadcasted ''u1'']
   \<and> wf full_stream \<and> running full_stream BillUpdate = None
   \<and> subscribers full_stream ''u1'' = Some 0
   \<and> heap (at_select BillUpdate ''u1'' (notif ''j'' ''u1'' ''x'') [] full_stream) 0
       = Some \<lparr>ch = \<lparr>buf = replicate 10 (notif ''i'' ''u1'' ''m''), cap = 10, closed = False,
                     sendq = []\<rparr>, userId = ''u1''\<rparr>
   \<and> quiet 0 BillUpdate (Tick Second)
   \<and> now (at_select BillUpdate ''u1'' (notif ''j'' ''u1'' ''x'') [] full_stream) + 1 * Second
       \<le> now (at_timer BillUpdate ''u1'' (notif ''j'' ''u1'' ''x'') [] [Tick Second] full_stream)
   \<and> logs (step (TimerFires BillUpdate)
              (at_timer BillUpdate ''u1'' (notif ''j'' ''u1'' ''x'') [] [Tick Second] full_stream))
       = logs (at_timer BillUpdate ''u1'' (notif ''j'' ''u1'' ''x'') [] [Tick Second] full_stream)
           @ [ChannelFullDropping ''u1'']
   \<and> running (step (TimerFires BillUpdate)
              (at_timer BillUpdate ''u1'' (notif ''j'' ''u1'' ''x'') [] [Tick Second] full_stream))
         BillUpdate = None
   \<and> \<not> carries (run [ChanRecv 0, StreamSend 0 True, OpenStream ''u3'']
                  (step (TimerFires BillUpdate)
                     (at_timer BillUpdate ''u1'' (notif ''j'' ''u1'' ''x'') [] [Tick Second] full_stream)))
                (notif ''j'' ''u1'' ''x'')"
proof -
  let ?n = "notif ''j'' ''u1'' ''x''"
  let ?sub0 = "\<lparr>ch = \<lparr>buf = [], cap = 10, closed = False, sendq = []\<rparr>, userId = ''u1''\<rparr>"
  let ?sub10 = "\<lparr>ch = \<lparr>buf = replicate 10 (notif ''i'' ''u1'' ''m''), cap = 10, closed = False,
                     sendq = []\<rparr>, userId = ''u1''\<rparr>"
  have a0: "subscribers init ''u2'' = None" by (simp add: init_def)
  have a: "broadcast BillUpdate ''u2'' (notif ''j'' ''u2'' ''Balance: $42.00'') init
       = init\<lparr>logs := [NoActiveSubscribers ''u2'']\<rparr>"
    using deliver_outcomes [OF wf_init idle_init, of "''u2''" BillUpdate
            "notif ''j'' ''u2'' ''Balance: $42.00''", THEN conjunct1] a0
    by (simp add: init_def)
  have b0: "subscribers one_stream ''u1'' = Some 0" by (simp add: one_stream_eq)
  have b1: "broadcast BillUpdate ''u1'' ?n one_stream
      = one_stream\<lparr>running := [BillUpdate \<mapsto> \<lparr>b_userID = ''u1'', b_notif = ?n, b_sub = 0, b_timer = None\<rparr>]\<rparr>"
    by (simp add: broadcast_def one_stream_eq)
  have b2: "subscribers one_stream ''u1'' = Some 0 \<and> (\<forall>e \<in> set []. e \<noteq> SelectEnter BillUpdate) \<and>
           heap (at_select BillUpdate ''u1'' ?n [] one_stream) 0 = Some ?sub0 \<and> \<not> closed (ch ?sub0) \<and>
           \<not> panicked (at_select BillUpdate ''u1'' ?n [] one_stream)"
    by (simp add: b1) (simp add: one_stream_eq)
  note bb = deliver_outcomes [OF wf_one_stream idle_one_stream, of "''u1''" BillUpdate ?n,
              THEN conjunct2, THEN conjunct2, rule_format, OF b2, THEN conjunct1, rule_format]
  have b3: "step (SelectEnter BillUpdate) (at_select BillUpdate ''u1'' ?n [] one_stream) =
      (at_select BillUpdate ''u1'' ?n [] one_stream)
        \<lparr>heap := (heap (at_select BillUpdate ''u1'' ?n [] one_stream))
                   (0 \<mapsto> ?sub0\<lparr>ch := (ch ?sub0)\<lparr>buf := buf (ch ?sub0) @ [?n]\<rparr>\<rparr>),
          running := (running (at_select BillUpdate ''u1'' ?n [] one_stream))(BillUpdate := None),
          logs := logs (at_select BillUpdate ''u1'' ?n [] one_stream) @ [SuccessfullyBroadcasted ''u1'']\<rparr>"
    by (rule bb) simp
  have b4: "heap (step (SelectEnter BillUpdate) (at_select BillUpdate ''u1'' ?n [] one_stream)) 0
       = Some \<lparr>ch = \<lparr>buf = [?n], cap = 10, closed = False, sendq = []\<rparr>, userId = ''u1''\<rparr>"
    unfolding b3 by simp
  have b5: "logs (step (SelectEnter BillUpdate) (at_select BillUpdate ''u1'' ?n [] one_stream))
       = [NewSubscriber ''u1'', SuccessfullyBroadcasted ''u1'']"
    unfolding b3 by (simp add: b1) (simp add: one_stream_eq)
  have c0: "subscribers full_stream ''u1'' = Some 0" by (simp add: full_stream_eq)
  have c1: "broadcast BillUpdate ''u1'' ?n full_stream
      = full_stream\<lparr>running := [BillUpdate \<mapsto> \<lparr>b_userID = ''u1'', b_notif = ?n, b_sub = 0, b_timer = None\<rparr>]\<rparr>"
    by (simp add: broadcast_def full_stream_eq)
  have c2: "subscribers full_stream ''u1'' = Some 0 \<and> (\<forall>e \<in> set []. e \<noteq> SelectEnter BillUpdate) \<and>
           heap (at_select BillUpdate ''u1'' ?n [] full_stream) 0 = Some ?sub10 \<and> \<not> closed (ch ?sub10) \<and>
           \<not> panicked (at_select BillUpdate ''u1'' ?n [] full_stream)"
    by (simp add: c1) (simp add: full_stream_eq)
  have c3: "heap (at_select BillUpdate ''u1'' ?n [] full_stream) 0 = Some ?sub10"
    using c2 by simp
  have c4: "step (Tick Second) (step (SelectEnter BillUpdate)
         (full_stream\<lparr>running := [BillUpdate \<mapsto> \<lparr>b_userID = ''u1'', b_notif = ?n, b_sub = 0, b_timer = None\<rparr>]\<rparr>))
       = full_stream
          \<lparr>heap := [0 \<mapsto> ?sub10\<lparr>ch := (ch ?sub10)\<lparr>sendq := [(BillUpdate, ''u1'', ?n)]\<rparr>\<rparr>],
            running := [BillUpdate \<mapsto> \<lparr>b_userID = ''u1'', b_notif = ?n, b_sub = 0,
                                         b_timer = Some (1 * Second)\<rparr>],
            now := Second\<rparr>"
    by (simp add: step_def broadcast_select_def full_stream_eq)
  have c5: "(\<forall>e \<in> set [Tick Second]. quiet 0 BillUpdate e) \<and>
            \<not> panicked (at_timer BillUpdate ''u1'' ?n [] [Tick Second] full_stream)"
    by (simp add: c1 c4) (simp add: full_stream_eq)
  have c6: "now (at_select BillUpdate ''u1'' ?n [] full_stream) + 1 * Second
       \<le> now (at_timer BillUpdate ''u1'' ?n [] [Tick Second] full_stream)"
    by (simp add: c1 c4) (simp add: full_stream_eq)
  have c7: "cap (ch ?sub10) \<le> length (buf (ch ?sub10))" by simp
  note cc = deliver_outcomes [OF wf_full_stream idle_full_stream, of "''u1''" BillUpdate ?n,
              THEN conjunct2, THEN conjunct2, rule_format, OF c2, THEN conjunct2, rule_format, OF c7 c5,
              THEN conjunct2, rule_format, OF c6]
  have c8: "\<not> carries full_stream ?n \<and> (\<forall>e \<in> set ([] @ [Tick Second]). \<not> creates e ?n)"
    using not_carried_full_stream by simp
  have c10: "\<not> carries (run [ChanRecv 0, StreamSend 0 True, OpenStream ''u3'']
                  (step (TimerFires BillUpdate)
                     (at_timer BillUpdate ''u1'' ?n [] [Tick Second] full_stream))) ?n"
    by (rule cc [THEN conjunct2, THEN conjunct2, THEN conjunct2, rule_format, OF c8]) auto
  from a0 a b0 b4 b5 c0 c3 c6 cc [THEN conjunct1] cc [THEN conjunct2, THEN conjunct1] c10
    wf_init wf_one_stream wf_full_stream idle_init idle_one_stream idle_full_stream
  show ?thesis by simp
qed

text \<open>
  C1 against the code. The session of the subscriber may leave its loop while a call of
  \<^verbatim>\<open>broadcast\<close> is under way, and then the call has none of the three outcomes.
  \<^item> A stream is open for u1 and its channel is empty. \<^verbatim>\<open>broadcast\<close> finds the subscriber
    (line 309); the context of the stream is done and the deferred function closes the
    channel (line 285); the call reaches its \<^verbatim>\<open>select\<close> (line 319) and the send on the closed
    channel panics. The notification is not in the channel, no line of an outcome is logged,
    and the call has not returned.
  \<^item> The channel of u1 holds ten notifications. The call blocks in its \<^verbatim>\<open>select\<close>; the
    session returns before the second is over and the close makes the blocked sender panic.
    The channel still holds the ten notifications, the second passes, and the call never
    logs that it drops the notification.
  \<^item> The same when the session leaves because \<^verbatim>\<open>stream.Send\<close> fails (line 294) while the
    call is blocked on the channel, full again.
\<close>

theorem C1_no_outcome_when_session_leaves:
  "subscribers one_stream ''u1'' = Some 0
   \<and> heap one_stream 0
       = Some \<lparr>ch = \<lparr>buf = [], cap = 10, closed = False, sendq = []\<rparr>, userId = ''u1''\<rparr>
   \<and> panicked (run [CtxDone 0, SelectEnter BillUpdate]
                  (broadcast BillUpdate ''u1'' (notif ''j'' ''u1'' ''x'') one_stream))
   \<and> heap (run [CtxDone 0, SelectEnter BillUpdate]
              (broadcast BillUpdate ''u1'' (notif ''j'' ''u1'' ''x'') one_stream)) 0
       = Some \<lparr>ch = \<lparr>buf = [], cap = 10, closed = True, sendq = []\<rparr>, userId = ''u1''\<rparr>
   \<and> logs (run [CtxDone 0, SelectEnter BillUpdate]
              (broadcast BillUpdate ''u1'' (notif ''j'' ''u1'' ''x'') one_stream))
       = [NewSubscriber ''u1'', ClientDisconnected ''u1'', SubscriberDisconnected ''u1'']
   \<and> running (run [CtxDone 0, SelectEnter BillUpdate]
                 (broadcast BillUpdate ''u1'' (notif ''j'' ''u1'' ''x'') one_stream)) BillUpdate
       = Some \<lparr>b_userID = ''u1'', b_notif = notif ''j'' ''u1'' ''x'', b_sub = 0, b_timer = None\<rparr>
   \<and> subscribers full_stream ''u1'' = Some 0
   \<and> heap full_stream 0
       = Some \<lparr>ch = \<lparr>buf = replicate 10 (notif ''i'' ''u1'' ''m''), cap = 10, closed = False,
                     sendq = []\<rparr>, userId = ''u1''\<rparr>
   \<and> running (run [SelectEnter BillUpdate]
                 (broadcast BillUpdate ''u1'' (notif ''j'' ''u1'' ''x'') full_stream)) BillUpdate
       = Some \<lparr>b_userID = ''u1'', b_notif = notif ''j'' ''u1'' ''x'', b_sub = 0,
               b_timer = Some (1 * Second)\<rparr>
   \<and> panicked (run [SelectEnter BillUpdate, CtxDone 0, Tick Second, TimerFires BillUpdate]
                  (broadcast BillUpdate ''u1'' (notif ''j'' ''u1'' ''x'') full_stream))
   \<and> heap (run [SelectEnter BillUpdate, CtxDone 0, Tick Second, TimerFires BillUpdate]
              (broadcast BillUpdate ''u1'' (notif ''j'' ''u1'' ''x'') full_stream)) 0
       = Some \<lparr>ch = \<lparr>buf = replicate 10 (notif ''i'' ''u1'' ''m''), cap = 10, closed = True,
                     sendq = [(BillUpdate, ''u1'', notif ''j'' ''u1'' ''x'')]\<rparr>, userId = ''u1''\<rparr>
   \<and> logs (run [SelectEnter BillUpdate, CtxDone 0, Tick Second, TimerFires BillUpdate]
              (broadcast BillUpdate ''u1'' (notif ''j'' ''u1'' ''x'') full_stream))
       = logs full_stream @ [ClientDisconnected ''u1'', SubscriberDisconnected ''u1'']
   \<and> sending (run [ChanRecv 0, NatsMsg (bill ''u1'' ''m'') ''i'' ''t'', SelectEnter BillUpdate]
                 full_stream) 0
       = Some (notif ''i'' ''u1'' ''m'')
   \<and> heap (run [ChanRecv 0, NatsMsg (bill ''u1'' ''m'') ''i'' ''t'', SelectEnter BillUpdate]
              full_stream) 0
       = heap full_stream 0
   \<and> panicked (run [ChanRecv 0, NatsMsg (bill ''u1'' ''m'') ''i'' ''t'', SelectEnter BillUpdate,
                     NatsMsg (bill ''u1'' ''x'') ''j'' ''t'', SelectEnter BillUpdate,
                     StreamSend 0 False, Tick Second, TimerFires BillUpdate] full_stream)
   \<and> logs (run [ChanRecv 0, NatsMsg (bill ''u1'' ''m'') ''i'' ''t'', SelectEnter BillUpdate,
                 NatsMsg (bill ''u1'' ''x'') ''j'' ''t'', SelectEnter BillUpdate,
                 StreamSend 0 False, Tick Second, TimerFires BillUpdate] full_stream)
       = logs full_stream
           @ [ReceivedBillUpdate (Data (bill ''u1'' ''m'')), SuccessfullyBroadcasted ''u1'',
              ReceivedBillUpdate (Data (bill ''u1'' ''x'')), ErrorSendingToStream ''u1'',
              SubscriberDisconnected ''u1'']"
  by (simp add: step_def session_done_def session_recv_def session_send_def chanrecv_def
                detach_def subscribeToEvents_bill broadcast_def broadcast_select_def
                one_stream_eq full_stream_eq replicate_10)

lemma heap_broadcast_select_other:
  "running s g = Some b \<Longrightarrow> q \<noteq> b_sub b \<Longrightarrow> heap (broadcast_select g s) q = heap s q"
  by (simp add: broadcast_select_def split: option.splits)

lemma heap_broadcast_timeout_other:
  "running s g = Some b \<Longrightarrow> q \<noteq> b_sub b \<Longrightarrow> heap (broadcast_timeout g s) q = heap s q"
  by (simp add: broadcast_timeout_def split: option.splits)

section \<open>No notification reaches the sink of another user\<close>

text \<open>
  C6. In every state of every run: a notification for \<open>R1\<close> is neither in the buffer of the
  channel registered under another user id \<open>R2\<close>, nor queued by a sender blocked on it, nor
  in the hands of its session, nor sent on its stream. A call of \<^verbatim>\<open>broadcast\<close> in progress points to a subscriber whose user
  id is that of its notification, and its send and its timeout leave every other subscriber
  as it is.
\<close>

theorem C6_no_cross_recipient_leakage:
  "(\<forall>R1 R2 p sub (n::Notification).
      R1 \<noteq> R2 \<and> UserId n = R1 \<and> subscribers (run es init) R2 = Some p \<and>
      heap (run es init) p = Some sub \<longrightarrow>
      n \<notin> set (buf (ch sub)) \<and> n \<notin> (snd \<circ> snd) ` set (sendq (ch sub)) \<and>
      sending (run es init) p \<noteq> Some n \<and> (p, n) \<notin> set (sent (run es init)))
   \<and> (\<forall>g b. running (run es init) g = Some b \<longrightarrow>
         (\<exists>sub. heap (run es init) (b_sub b) = Some sub \<and> userId sub = UserId (b_notif b)) \<and>
         (\<forall>q. q \<noteq> b_sub b \<longrightarrow>
            heap (broadcast_select g (run es init)) q = heap (run es init) q \<and>
            heap (broadcast_timeout g (run es init)) q = heap (run es init) q))"
proof -
  have w: "wf (run es init)" using wf_init by (rule wf_run)
  have r: "routed (run es init)" using routed_init wf_init by (rule routed_run)
  show ?thesis
  proof (intro conjI allI impI)
    fix R1 R2 p sub and n :: Notification
    assume a: "R1 \<noteq> R2 \<and> UserId n = R1 \<and> subscribers (run es init) R2 = Some p \<and>
      heap (run es init) p = Some sub"
    with wf_regD [OF w, of R2 p] have u: "userId sub = R2" by auto
    from a u routed_bufD [OF r, of p sub n] show "n \<notin> set (buf (ch sub))" by auto
    show "n \<notin> (snd \<circ> snd) ` set (sendq (ch sub))"
    proof
      assume "n \<in> (snd \<circ> snd) ` set (sendq (ch sub))"
      then obtain w0 where "w0 \<in> set (sendq (ch sub))" "snd (snd w0) = n" by auto
      with a u routed_sendqD [OF r, of p sub w0] show False by auto
    qed
    show "sending (run es init) p \<noteq> Some n"
    proof
      assume "sending (run es init) p = Some n"
      from routed_sendingD [OF r this] a u show False by auto
    qed
    show "(p, n) \<notin> set (sent (run es init))"
    proof
      assume "(p, n) \<in> set (sent (run es init))"
      from routed_sentD [OF r this] a u show False by auto
    qed
  next
    fix g b assume b: "running (run es init) g = Some b"
    from routed_runD [OF r b]
    show "\<exists>sub. heap (run es init) (b_sub b) = Some sub \<and> userId sub = UserId (b_notif b)"
      by auto
    fix q assume "q \<noteq> b_sub b"
    with b show "heap (broadcast_select g (run es init)) q = heap (run es init) q"
      and "heap (broadcast_timeout g (run es init)) q = heap (run es init) q"
      by (simp_all add: heap_broadcast_select_other heap_broadcast_timeout_other)
  qed
qed

text \<open>Streams open for u1 and u2, a notification for u1 delivered: it is not with u2.\<close>

theorem C6_no_cross_recipient_leakage_witness:
  "''u1'' \<noteq> ''u2'' \<and> UserId (notif ''i'' ''u1'' ''m'') = ''u1''
   \<and> subscribers two_streams ''u2'' = Some 1
   \<and> heap two_streams 1
       = Some \<lparr>ch = \<lparr>buf = [], cap = 10, closed = False, sendq = []\<rparr>, userId = ''u2''\<rparr>
   \<and> heap two_streams 0
       = Some \<lparr>ch = \<lparr>buf = [notif ''i'' ''u1'' ''m''], cap = 10, closed = False, sendq = []\<rparr>,
               userId = ''u1''\<rparr>
   \<and> (1, notif ''i'' ''u1'' ''m'') \<notin> set (sent two_streams)"
proof -
  let ?sub2 = "\<lparr>ch = \<lparr>buf = [], cap = 10, closed = False, sendq = []\<rparr>, userId = ''u2''\<rparr>"
  have h: "''u1'' \<noteq> ''u2'' \<and> UserId (notif ''i'' ''u1'' ''m'') = ''u1'' \<and>
      subscribers two_streams ''u2'' = Some 1 \<and> heap two_streams 1 = Some ?sub2"
    by (simp add: two_streams_eq notif_def)
  note c = C6_no_cross_recipient_leakage
             [of "[OpenStream ''u1'', OpenStream ''u2'',
                   NatsMsg (bill ''u1'' ''m'') ''i'' ''t'', SelectEnter BillUpdate]",
              folded two_streams_def, THEN conjunct1, rule_format, OF h]
  have "heap two_streams 0
       = Some \<lparr>ch = \<lparr>buf = [notif ''i'' ''u1'' ''m''], cap = 10, closed = False, sendq = []\<rparr>,
               userId = ''u1''\<rparr>"
    by (simp add: two_streams_eq)
  with h c show ?thesis by simp
qed

lemma logs_chanrecv:
  "\<exists>l. logs (chanrecv p s) = logs s @ l \<and> (\<forall>u. SubscriberDisconnected u \<notin> set l)"
  by (cases rule: chanrecv_cases [of s p]) auto

section \<open>The end of a session\<close>

text \<open>
  What holds of C7. A session in its loop leaves it when its context is done while it waits
  in its \<^verbatim>\<open>select\<close>, or when \<^verbatim>\<open>stream.Send\<close> fails. On both ways the deferred function
  runs once: the key of the session is deleted from the map, the channel is closed, one line
  is logged. From then on the steps of the session do nothing, the map never points to its
  subscriber again, its channel is never written, and its stream sends nothing more.
\<close>

theorem detach_on_every_exit:
  assumes w: "wf s" and h: "heap s p = Some sub" and op: "\<not> closed (ch sub)"
    and ex: "(sending s p = None \<and> s' = session_done p s)
             \<or> (sending s p \<noteq> None \<and> s' = session_send p False s)"
  shows "subscribers s' (userId sub) = None
     \<and> (\<exists>sub'. heap s' p = Some sub' \<and> closed (ch sub'))
     \<and> (\<exists>l. logs s' = logs s @ l @ [SubscriberDisconnected (userId sub)]
             \<and> SubscriberDisconnected (userId sub) \<notin> set l)
     \<and> (\<forall>es ok. step (CtxDone p) (run es s') = run es s'
                \<and> step (ChanRecv p) (run es s') = run es s'
                \<and> step (StreamSend p ok) (run es s') = run es s')
     \<and> (\<forall>es. heap (run es s') p = heap s' p
             \<and> (\<forall>u. subscribers (run es s') u \<noteq> Some p)
             \<and> filter (\<lambda>x. fst x = p) (sent (run es s')) = filter (\<lambda>x. fst x = p) (sent s'))"
proof -
  obtain s0 l0 where s': "s' = detach p s0" and w0: "wf s0"
    and h0: "heap s0 p = Some sub" and g0: "sending s0 p = None"
    and l0: "logs s0 = logs s @ l0" "SubscriberDisconnected (userId sub) \<notin> set l0"
  proof -
    from ex consider "sending s p = None" "s' = session_done p s"
      | notif where "sending s p = Some notif" "s' = session_send p False s"
      by auto
    then show ?thesis
    proof cases
      case 1
      with h op have "s' = detach p (s\<lparr>logs := logs s @ [ClientDisconnected (userId sub)]\<rparr>)"
        by (simp add: session_done_def)
      with w h 1 show ?thesis
        using that [of "s\<lparr>logs := logs s @ [ClientDisconnected (userId sub)]\<rparr>"
                       "[ClientDisconnected (userId sub)]"] by simp
    next
      case 2
      with h have "s' = detach p (s\<lparr>sending := (sending s)(p := None),
                                    logs := logs s @ [ErrorSendingToStream (userId sub)]\<rparr>)"
        by (simp add: session_send_def)
      with w h show ?thesis
        using that [of "s\<lparr>sending := (sending s)(p := None),
                          logs := logs s @ [ErrorSendingToStream (userId sub)]\<rparr>"
                       "[ErrorSendingToStream (userId sub)]"] by simp
    qed
  qed
  note dd = detach_detached [OF w0 h0 g0]
  have d: "detached p s'" unfolding s' by (rule dd(1))
  have dr: "detached p (run es s')" "frame p s' (run es s')" for es
    using detached_run [OF d, of es] by simp_all
  have "subscribers s' (userId sub) = None"
    using dd(2) by (simp add: s')
  moreover have "\<exists>sub'. heap s' p = Some sub' \<and> closed (ch sub')"
    using dd(4) by (simp add: s')
  moreover have "\<exists>l. logs s' = logs s @ l @ [SubscriberDisconnected (userId sub)]
             \<and> SubscriberDisconnected (userId sub) \<notin> set l"
    using dd(3) l0 by (simp add: s')
  moreover have "step (CtxDone p) (run es s') = run es s'
                \<and> step (ChanRecv p) (run es s') = run es s'
                \<and> step (StreamSend p ok) (run es s') = run es s'" for es ok
    using detached_terminal [OF dr(1), of es ok] by (simp add: step_def)
  moreover have "heap (run es s') p = heap s' p
             \<and> (\<forall>u. subscribers (run es s') u \<noteq> Some p)
             \<and> filter (\<lambda>x. fst x = p) (sent (run es s')) = filter (\<lambda>x. fst x = p) (sent s')" for es
    using dr [of es] by (simp add: detached_def frame_def)
  ultimately show ?thesis by blast
qed

text \<open>
  Both ways out: the context done on an empty channel; a failed send of the one notification
  that the session has received.
\<close>

theorem detach_on_every_exit_example:
  "wf one_stream
   \<and> heap one_stream 0
       = Some \<lparr>ch = \<lparr>buf = [], cap = 10, closed = False, sendq = []\<rparr>, userId = ''u1''\<rparr>
   \<and> sending one_stream 0 = None
   \<and> subscribers (session_done 0 one_stream) ''u1'' = None
   \<and> logs (session_done 0 one_stream)
       = [NewSubscriber ''u1'', ClientDisconnected ''u1'', SubscriberDisconnected ''u1'']
   \<and> step (CtxDone 0) (run [OpenStream ''u1''] (session_done 0 one_stream))
       = run [OpenStream ''u1''] (session_done 0 one_stream)
   \<and> heap (run [OpenStream ''u1'', NatsMsg (bill ''u1'' ''m'') ''i'' ''t'', SelectEnter BillUpdate]
              (session_done 0 one_stream)) 0
       = heap (session_done 0 one_stream) 0
   \<and> wf (session_recv 0 one_record)
   \<and> heap (session_recv 0 one_record) 0
       = Some \<lparr>ch = \<lparr>buf = [], cap = 10, closed = False, sendq = []\<rparr>, userId = ''u1''\<rparr>
   \<and> sending (session_recv 0 one_record) 0 = Some (notif ''i'' ''u1'' ''m'')
   \<and> subscribers (session_send 0 False (session_recv 0 one_record)) ''u1'' = None
   \<and> logs (session_send 0 False (session_recv 0 one_record))
       = [NewSubscriber ''u1'', ReceivedBillUpdate (Data (bill ''u1'' ''m'')),
          SuccessfullyBroadcasted ''u1'', ErrorSendingToStream ''u1'', SubscriberDisconnected ''u1'']
   \<and> sent (run [StreamSend 0 True] (session_send 0 False (session_recv 0 one_record))) = []"
proof -
  let ?sub0 = "\<lparr>ch = \<lparr>buf = [], cap = 10, closed = False, sendq = []\<rparr>, userId = ''u1''\<rparr>"
  let ?r = "session_recv 0 one_record"
  have h0: "heap one_stream 0 = Some ?sub0" by (simp add: one_stream_eq)
  have g0: "sending one_stream 0 = None" by (simp add: one_stream_eq)
  have o0: "\<not> closed (ch ?sub0)" by simp
  have e0: "(sending one_stream 0 = None \<and> session_done 0 one_stream = session_done 0 one_stream) \<or>
       (sending one_stream 0 \<noteq> None \<and> session_done 0 one_stream = session_send 0 False one_stream)"
    using g0 by simp
  note d = detach_on_every_exit [OF wf_one_stream h0 o0 e0]
  have d1: "subscribers (session_done 0 one_stream) ''u1'' = None"
    using d [THEN conjunct1] by simp
  have d2: "logs (session_done 0 one_stream)
       = [NewSubscriber ''u1'', ClientDisconnected ''u1'', SubscriberDisconnected ''u1'']"
    by (simp add: session_done_def detach_def one_stream_eq)
  have d3: "step (CtxDone 0) (run [OpenStream ''u1''] (session_done 0 one_stream))
       = run [OpenStream ''u1''] (session_done 0 one_stream)"
    by (rule d [THEN conjunct2, THEN conjunct2, THEN conjunct2, THEN conjunct1, rule_format,
                THEN conjunct1])
  have d4: "heap (run [OpenStream ''u1'', NatsMsg (bill ''u1'' ''m'') ''i'' ''t'', SelectEnter BillUpdate]
              (session_done 0 one_stream)) 0
       = heap (session_done 0 one_stream) 0"
    by (rule d [THEN conjunct2, THEN conjunct2, THEN conjunct2, THEN conjunct2, rule_format,
                THEN conjunct1])
  have wr: "wf ?r" using wf_one_record by (rule wf_session_recv)
  have h1: "heap ?r 0 = Some ?sub0"
    by (simp add: session_recv_def chanrecv_def one_record_eq)
  have g1: "sending ?r 0 = Some (notif ''i'' ''u1'' ''m'')"
    by (simp add: session_recv_def chanrecv_def one_record_eq)
  have e1: "(sending ?r 0 = None \<and> session_send 0 False ?r = session_done 0 ?r) \<or>
       (sending ?r 0 \<noteq> None \<and> session_send 0 False ?r = session_send 0 False ?r)"
    using g1 by simp
  note r = detach_on_every_exit [OF wr h1 o0 e1]
  have r1: "subscribers (session_send 0 False ?r) ''u1'' = None"
    using r [THEN conjunct1] by simp
  have r2: "logs (session_send 0 False ?r)
       = [NewSubscriber ''u1'', ReceivedBillUpdate (Data (bill ''u1'' ''m'')),
          SuccessfullyBroadcasted ''u1'', ErrorSendingToStream ''u1'', SubscriberDisconnected ''u1'']"
    by (simp add: session_send_def session_recv_def chanrecv_def detach_def one_record_eq)
  have r3: "filter (\<lambda>x. fst x = 0) (sent (run [StreamSend 0 True] (session_send 0 False ?r)))
       = filter (\<lambda>x. fst x = 0) (sent (session_send 0 False ?r))"
    by (rule r [THEN conjunct2, THEN conjunct2, THEN conjunct2, THEN conjunct2, rule_format,
                THEN conjunct2, THEN conjunct2])
  have r4: "sent (run [StreamSend 0 True] (session_send 0 False ?r)) = []"
    by (simp add: step_def session_send_def session_recv_def chanrecv_def detach_def one_record_eq)
  from wf_one_stream h0 g0 d1 d2 d3 d4 wr h1 g1 r1 r2 r3 r4 show ?thesis by simp
qed

text \<open>
  C7 says more: that no delivery to the session is attempted after it has detached. A call
  of \<^verbatim>\<open>broadcast\<close> that has read the pointer (line 309) before the session detaches still
  holds it afterwards, although the map no longer does, and sends on the closed channel when
  it reaches its \<^verbatim>\<open>select\<close> (line 319): the goroutine panics and the process ends. The same
  happens to a call blocked on the full channel at the moment the session closes it.
\<close>

theorem C7_send_after_detach_panics:
  "running (run [OpenStream ''u1'', NatsMsg (bill ''u1'' ''m'') ''i'' ''t'', CtxDone 0] init) BillUpdate
     = Some \<lparr>b_userID = ''u1'', b_notif = notif ''i'' ''u1'' ''m'', b_sub = 0, b_timer = None\<rparr>
   \<and> subscribers (run [OpenStream ''u1'', NatsMsg (bill ''u1'' ''m'') ''i'' ''t'', CtxDone 0] init) ''u1''
       = None
   \<and> heap (run [OpenStream ''u1'', NatsMsg (bill ''u1'' ''m'') ''i'' ''t'', CtxDone 0] init) 0
       = Some \<lparr>ch = \<lparr>buf = [], cap = 10, closed = True, sendq = []\<rparr>, userId = ''u1''\<rparr>
   \<and> \<not> panicked (run [OpenStream ''u1'', NatsMsg (bill ''u1'' ''m'') ''i'' ''t'', CtxDone 0] init)
   \<and> panicked (run [OpenStream ''u1'', NatsMsg (bill ''u1'' ''m'') ''i'' ''t'', CtxDone 0,
                     SelectEnter BillUpdate] init)
   \<and> panicked (run [NatsMsg (bill ''u1'' ''x'') ''j'' ''t'', SelectEnter BillUpdate, CtxDone 0]
                  full_stream)"
  by (simp add: step_def SubscribeToNotifications_def session_done_def detach_def init_def
                subscribeToEvents_bill broadcast_def broadcast_select_def full_stream_eq)











section \<open>A delivery leaves the registry alone\<close>



section \<open>Opening a stream without a user id\<close>

text \<open>
  C3, as the specification words it, fails: \<^verbatim>\<open>SubscribeToNotifications\<close> with an empty
  \<^verbatim>\<open>UserId\<close> does not fail; it allocates a subscriber and stores it under the empty key.
\<close>

theorem C3_counterexample:
  "subscribers (SubscribeToNotifications [] init) [] = Some 0
   \<and> heap (SubscribeToNotifications [] init) 0
       = Some \<lparr>ch = \<lparr>buf = [], cap = 10, closed = False, sendq = []\<rparr>, userId = []\<rparr>
   \<and> logs (SubscribeToNotifications [] init) = [NewSubscriber []]
   \<and> step (OpenStream []) init = SubscribeToNotifications [] init"
  by (simp add: SubscribeToNotifications_def init_def step_def)

text \<open>
  C3 (amended): \<^verbatim>\<open>SubscribeToNotifications\<close> stores a new subscriber under the user id it is
  given, whatever it is. The empty user id is refused one layer up: \<^verbatim>\<open>handleWebSocket\<close>
  answers 400 before it calls the service, so that a connection to the gateway with an
  empty user id leaves the service as it is, and no connection to the gateway creates an
  entry under the empty key.
\<close>

theorem C3_empty_id_rejected_by_gateway_only:
  "subscribers (SubscribeToNotifications userID s) userID = Some (nextp s)
   \<and> heap (SubscribeToNotifications userID s) (nextp s)
       = Some \<lparr>ch = \<lparr>buf = [], cap = 10, closed = False, sendq = []\<rparr>, userId = userID\<rparr>
   \<and> handleWebSocket [] upgrade_ok subscribe_ok = WsBadRequest ''userId query parameter is required''
   \<and> ws_connect [] upgrade_ok subscribe_ok s = s
   \<and> subscribers (ws_connect userID upgrade_ok subscribe_ok s) [] = subscribers s []"
  by (auto simp: SubscribeToNotifications_def handleWebSocket_def ws_connect_def step_def)

text \<open>With a stream open for u1: connections for no user and for u2, and a direct call.\<close>

theorem C3_empty_id_rejected_by_gateway_only_witness:
  "ws_connect [] True True one_stream = one_stream
   \<and> subscribers (ws_connect ''u2'' True True one_stream) [] = None
   \<and> subscribers (ws_connect ''u2'' True True one_stream) ''u2'' = Some 1
   \<and> subscribers (SubscribeToNotifications [] one_stream) [] = Some 1"
proof -
  note a = C3_empty_id_rejected_by_gateway_only [of "[]" one_stream True True]
  note b = C3_empty_id_rejected_by_gateway_only [of "''u2''" one_stream True True]
  have "nextp one_stream = 1" "subscribers one_stream [] = None" by (simp_all add: one_stream_eq)
  moreover have "subscribers (ws_connect ''u2'' True True one_stream) ''u2'' = Some 1"
    by (simp add: ws_connect_def handleWebSocket_def step_def SubscribeToNotifications_def
                  one_stream_eq)
  ultimately show ?thesis using a b by simp
qed

section \<open>Two streams for one user\<close>

text \<open>
  C2 against the code, at scenario D of the specification: two streams are opened for u4;
  the map points to the second. The first session detaches: the deferred function deletes the
  key (line 283), not the entry of its own subscriber, so the key is gone although the second
  session is still in its loop with its channel open, and the next notification for u4 finds
  no subscriber.
\<close>

theorem C2_late_detach_removes_newer_registration:
  "subscribers (run [OpenStream ''u4'', OpenStream ''u4''] init) ''u4'' = Some 1
   \<and> subscribers (run [OpenStream ''u4'', OpenStream ''u4'', CtxDone 0] init) ''u4'' = None
   \<and> heap (run [OpenStream ''u4'', OpenStream ''u4'', CtxDone 0] init) 1
       = Some \<lparr>ch = \<lparr>buf = [], cap = 10, closed = False, sendq = []\<rparr>, userId = ''u4''\<rparr>
   \<and> logs (run [OpenStream ''u4'', OpenStream ''u4'', CtxDone 0,
                 NatsMsg (bill ''u4'' ''hi'') ''n1'' ''t''] init)
       = [NewSubscriber ''u4'', NewSubscriber ''u4'', ClientDisconnected ''u4'',
          SubscriberDisconnected ''u4'', ReceivedBillUpdate (Data (bill ''u4'' ''hi'')),
          NoActiveSubscribers ''u4'']"
  by (simp add: step_def SubscribeToNotifications_def session_done_def detach_def init_def
                subscribeToEvents_bill broadcast_def)

end
